theory Spec2Isabelle
  imports Main
begin

section \<open>Exceptions and Python built-ins\<close>

text \<open>
  The exceptions that the modelled code can raise. A function that can raise returns
  \<open>error + 'a\<close> with \<open>Inl\<close> for the exception. \<open>HTTPException\<close> is
  \<open>discord.HTTPException\<close>, the failure of a call to the remote chat service.
\<close>

datatype error =
    IndexError | AttributeError | KeyError | ValueError | TypeError
  | ZeroDivisionError | HTTPException

text \<open>
  \<open>xs[i]\<close> on a Python list: an index below zero counts from the end, an index out of
  range raises \<open>IndexError\<close>.
\<close>

definition getitem :: "'a list \<Rightarrow> int \<Rightarrow> error + 'a" where
  "getitem xs i =
     (if 0 \<le> i \<and> i < int (length xs) then Inr (xs ! nat i)
      else if - int (length xs) \<le> i \<and> i < 0 then Inr (xs ! nat (int (length xs) + i))
      else Inl IndexError)"

text \<open>\<open>str(n)\<close> for an integer, as the f-strings of the footer use it.\<close>

fun str_nat :: "nat \<Rightarrow> string" where
  "str_nat n =
     (if n < 10 then [''0123456789'' ! n]
      else str_nat (n div 10) @ [''0123456789'' ! (n mod 10)])"

declare str_nat.simps [simp del]

definition str_int :: "int \<Rightarrow> string" where
  "str_int i = (if i < 0 then CHR ''-'' # str_nat (nat (- i)) else str_nat (nat i))"

text \<open>\<open>s.split(sep)\<close> for a separator of one character.\<close>

fun split_on :: "char \<Rightarrow> string \<Rightarrow> string list" where
  "split_on sep [] = [[]]"
| "split_on sep (x # xs) =
     (if x = sep then [] # split_on sep xs
      else (case split_on sep xs of
              [] \<Rightarrow> [[x]]
            | w # ws \<Rightarrow> (x # w) # ws))"

section \<open>paginator.py: Page and Pages\<close>

record Page =
  index :: int
  content :: string

record Pages =
  pages :: "string list"
  cur_page :: int

text \<open>\<open>Pages.__init__\<close>, and the property \<open>total\<close>.\<close>

definition Pages_init :: "string list \<Rightarrow> Pages" where
  "Pages_init ps = \<lparr>pages = ps, cur_page = 1\<rparr>"

definition total_pages :: "Pages \<Rightarrow> int" where
  "total_pages p = int (length (pages p))"

definition current_page :: "Pages \<Rightarrow> error + Page" where
  "current_page p =
     (case getitem (pages p) (cur_page p - 1) of
        Inl e \<Rightarrow> Inl e
      | Inr c \<Rightarrow> Inr \<lparr>index = cur_page p, content = c\<rparr>)"

text \<open>
  The four navigation properties change \<open>cur_page\<close> and then read \<open>current_page\<close>, so
  each returns its value (or the exception) together with the object after the call.
  \<open>next_page\<close> and \<open>previous_page\<close> return \<open>None\<close> at the boundary.
\<close>

definition next_page :: "Pages \<Rightarrow> (error + Page option) \<times> Pages" where
  "next_page p =
     (if cur_page p = total_pages p then (Inr None, p)
      else (let p' = p\<lparr>cur_page := cur_page p + 1\<rparr>
            in (map_sum id Some (current_page p'), p')))"

definition previous_page :: "Pages \<Rightarrow> (error + Page option) \<times> Pages" where
  "previous_page p =
     (if cur_page p = 1 then (Inr None, p)
      else (let p' = p\<lparr>cur_page := cur_page p - 1\<rparr>
            in (map_sum id Some (current_page p'), p')))"

definition first_page :: "Pages \<Rightarrow> (error + Page) \<times> Pages" where
  "first_page p = (let p' = p\<lparr>cur_page := 1\<rparr> in (current_page p', p'))"

definition last_page :: "Pages \<Rightarrow> (error + Page) \<times> Pages" where
  "last_page p = (let p' = p\<lparr>cur_page := total_pages p\<rparr> in (current_page p', p'))"

text \<open>
  A navigation operation by name, and the object after a sequence of them. An operation
  that raises has already assigned \<open>cur_page\<close>, so the object after it is the second
  component whatever the first is.
\<close>

datatype nav = First | Previous | Next | Last

fun navigate :: "nav \<Rightarrow> Pages \<Rightarrow> (error + Page option) \<times> Pages" where
  "navigate First p = (case first_page p of (r, p') \<Rightarrow> (map_sum id Some r, p'))"
| "navigate Previous p = previous_page p"
| "navigate Next p = next_page p"
| "navigate Last p = (case last_page p of (r, p') \<Rightarrow> (map_sum id Some r, p'))"

fun navigate_all :: "nav list \<Rightarrow> Pages \<Rightarrow> Pages" where
  "navigate_all [] p = p"
| "navigate_all (n # ns) p = navigate_all ns (snd (navigate n p))"

section \<open>paginator.py: PaginatorView\<close>

datatype ButtonStyle = green | grey

record Button =
  custom_id :: string
  style :: ButtonStyle
  disabled :: bool

text \<open>
  A \<open>discord.Embed\<close> with the fields this library writes. Every embed built here is
  given a description string before the description is read.
\<close>

record Embed =
  title :: "string option"
  description :: string
  color :: "int option"
  footer :: "string option"

text \<open>
  The view: the invoking user's id (\<open>ctx.author.id\<close>), the page set, the displayed
  embed, the four buttons in the order of their declaration (first, previous, next,
  last) and the message the view is attached to, once \<open>start\<close> has assigned it.
\<close>

record PaginatorView =
  ctx_author_id :: nat
  view_pages :: Pages
  embed :: Embed
  show_page_count :: bool
  children :: "Button list"
  message :: "nat option"

text \<open>
  Calls to the chat service. Each call either succeeds or raises; which one is the
  environment's choice, given as a function from the attempted call to the exception.
  A handler returns its result, the view after it and the calls that went through.
\<close>

datatype effect =
    Defer
  | Send_message Embed "Button list option"
  | Send_ephemeral nat string
  | Edit_message Embed "Button list"
  | Edit_view "Button list"

type_synonym transport = "effect \<Rightarrow> error option"

definition set_disabled :: "nat \<Rightarrow> bool \<Rightarrow> Button list \<Rightarrow> Button list" where
  "set_disabled i b cs = cs[i := (cs ! i)\<lparr>disabled := b\<rparr>]"

definition buttons :: "Button list" where
  "buttons =
     [\<lparr>custom_id = ''first'', style = green, disabled = False\<rparr>,
      \<lparr>custom_id = ''previous'', style = green, disabled = False\<rparr>,
      \<lparr>custom_id = ''next'', style = green, disabled = False\<rparr>,
      \<lparr>custom_id = ''last'', style = green, disabled = False\<rparr>]"

text \<open>\<open>PaginatorView.__init__\<close>\<close>

definition PaginatorView_init ::
  "nat \<Rightarrow> Pages \<Rightarrow> Embed \<Rightarrow> bool \<Rightarrow> PaginatorView" where
  "PaginatorView_init author ps em spc =
     \<lparr>ctx_author_id = author, view_pages = ps, embed = em, show_page_count = spc,
      children = (if cur_page ps = 1 then set_disabled 1 True (set_disabled 0 True buttons)
                  else buttons),
      message = None\<rparr>"

text \<open>\<open>PaginatorView._lock\<close>\<close>

definition lock :: "PaginatorView \<Rightarrow> PaginatorView" where
  "lock v =
     (if cur_page (view_pages v) = total_pages (view_pages v) then
        v\<lparr>children := set_disabled 3 True (set_disabled 2 True
                         (set_disabled 1 False (set_disabled 0 False (children v))))\<rparr>
      else if cur_page (view_pages v) = 1 then
        v\<lparr>children := set_disabled 3 False (set_disabled 2 False
                         (set_disabled 1 True (set_disabled 0 True (children v))))\<rparr>
      else if 1 < cur_page (view_pages v) \<and> cur_page (view_pages v) < total_pages (view_pages v) then
        v\<lparr>children := map (\<lambda>child. child\<lparr>disabled := False\<rparr>) (children v)\<rparr>
      else v)"

text \<open>
  \<open>PaginatorView._update_embed\<close>. The callers pass what a navigation property returned,
  which is \<open>None\<close> at a boundary; reading \<open>page.index\<close> or \<open>page.content\<close> of \<open>None\<close>
  raises \<open>AttributeError\<close> before anything is written.
\<close>

definition update_embed :: "Page option \<Rightarrow> PaginatorView \<Rightarrow> error + PaginatorView" where
  "update_embed page v =
     (case page of
        None \<Rightarrow> Inl AttributeError
      | Some pg \<Rightarrow>
          (let em = (if show_page_count v
                     then (embed v)\<lparr>footer := Some (''Page '' @ str_int (index pg) @ '' of ''
                                                   @ str_int (total_pages (view_pages v)))\<rparr>
                     else embed v)
           in Inr (v\<lparr>embed := em\<lparr>description := content pg\<rparr>\<rparr>)))"

text \<open>\<open>PaginatorView.interaction_check\<close>, for the interaction of the user with id \<open>user\<close>.\<close>

definition not_yours :: string where
  "not_yours = ''Sorry, you can't use this interaction as it is not started by you.''"

definition interaction_check ::
  "transport \<Rightarrow> nat \<Rightarrow> PaginatorView \<Rightarrow> (error + bool) \<times> PaginatorView \<times> effect list" where
  "interaction_check tr user v =
     (if user \<noteq> ctx_author_id v then
        (case tr (Send_ephemeral user not_yours) of
           Some e \<Rightarrow> (Inl e, v, [])
         | None \<Rightarrow> (Inr False, v, [Send_ephemeral user not_yours]))
      else (Inr True, v, []))"

text \<open>
  \<open>PaginatorView.on_timeout\<close>: every button turns grey and disabled, then the message is
  edited inside \<open>suppress(discord.HTTPException)\<close>.
\<close>

definition on_timeout ::
  "transport \<Rightarrow> PaginatorView \<Rightarrow> (error + unit) \<times> PaginatorView \<times> effect list" where
  "on_timeout tr v =
     (let v' = v\<lparr>children := map (\<lambda>child. child\<lparr>style := grey, disabled := True\<rparr>) (children v)\<rparr>
      in case message v' of
           None \<Rightarrow> (Inl AttributeError, v', [])
         | Some m \<Rightarrow>
             (case tr (Edit_view (children v')) of
                None \<Rightarrow> (Inr (), v', [Edit_view (children v')])
              | Some e \<Rightarrow> if e = HTTPException then (Inr (), v', []) else (Inl e, v', [])))"

text \<open>
  The four button callbacks \<open>_first\<close>, \<open>_previous\<close>, \<open>_next\<close> and \<open>_last\<close> have one body up
  to the navigation property they read: defer the interaction, read the property, update
  the embed, recompute the buttons, edit the message. Nothing is caught.
\<close>

definition button_callback ::
  "(Pages \<Rightarrow> (error + Page option) \<times> Pages) \<Rightarrow> transport \<Rightarrow> PaginatorView
     \<Rightarrow> (error + unit) \<times> PaginatorView \<times> effect list" where
  "button_callback property tr v =
     (case tr Defer of
        Some e \<Rightarrow> (Inl e, v, [])
      | None \<Rightarrow>
          (case property (view_pages v) of (r, p') \<Rightarrow>
             (let v1 = v\<lparr>view_pages := p'\<rparr>
              in case r of
                   Inl e \<Rightarrow> (Inl e, v1, [Defer])
                 | Inr page \<Rightarrow>
                     (case update_embed page v1 of
                        Inl e \<Rightarrow> (Inl e, v1, [Defer])
                      | Inr v2 \<Rightarrow>
                          (let v3 = lock v2
                           in case tr (Edit_message (embed v3) (children v3)) of
                                Some e \<Rightarrow> (Inl e, v3, [Defer])
                              | None \<Rightarrow>
                                  (Inr (), v3,
                                   [Defer, Edit_message (embed v3) (children v3)]))))))"

definition button_first ::
  "transport \<Rightarrow> PaginatorView \<Rightarrow> (error + unit) \<times> PaginatorView \<times> effect list" where
  "button_first = button_callback (navigate First)"

definition button_previous ::
  "transport \<Rightarrow> PaginatorView \<Rightarrow> (error + unit) \<times> PaginatorView \<times> effect list" where
  "button_previous = button_callback (navigate Previous)"

definition button_next ::
  "transport \<Rightarrow> PaginatorView \<Rightarrow> (error + unit) \<times> PaginatorView \<times> effect list" where
  "button_next = button_callback (navigate Next)"

definition button_last ::
  "transport \<Rightarrow> PaginatorView \<Rightarrow> (error + unit) \<times> PaginatorView \<times> effect list" where
  "button_last = button_callback (navigate Last)"

fun callback ::
  "nav \<Rightarrow> transport \<Rightarrow> PaginatorView \<Rightarrow> (error + unit) \<times> PaginatorView \<times> effect list" where
  "callback First = button_first"
| "callback Previous = button_previous"
| "callback Next = button_next"
| "callback Last = button_last"

text \<open>
  How \<open>discord.ui.View\<close> delivers a button press: it awaits \<open>interaction_check\<close> and runs
  the button's callback only when the check returned \<open>True\<close>. An exception of either is
  handed to the view's error handler, and the view stays as the failing call left it.
\<close>

definition dispatch ::
  "transport \<Rightarrow> nat \<Rightarrow> nav \<Rightarrow> PaginatorView \<Rightarrow> (error + unit) \<times> PaginatorView \<times> effect list" where
  "dispatch tr user b v =
     (case interaction_check tr user v of
        (Inl e, v', out) \<Rightarrow> (Inl e, v', out)
      | (Inr allow, v', out) \<Rightarrow>
          (if \<not> allow then (Inr (), v', out)
           else (case callback b tr v' of (r, v'', out') \<Rightarrow> (r, v'', out @ out'))))"

text \<open>
  A session: button presses, each by some user and with the environment's answers to
  the calls made while it is handled.
\<close>

fun run_view :: "(transport \<times> nat \<times> nav) list \<Rightarrow> PaginatorView \<Rightarrow> PaginatorView" where
  "run_view [] v = v"
| "run_view ((tr, user, b) # evs) v = run_view evs (fst (snd (dispatch tr user b v)))"

section \<open>paginator.py: get\_chunks and RedPaginator\<close>

text \<open>
  \<open>get_chunks\<close> calls \<open>tuple(islice(it, size))\<close> until it gets the empty tuple.
  \<open>islice\<close> raises \<open>ValueError\<close> for a negative size, at the first call; for size
  0 the first tuple is empty already.
\<close>

function chunks :: "nat \<Rightarrow> 'a list \<Rightarrow> 'a list list" where
  "chunks n it = (if take n it = [] then [] else take n it # chunks n (drop n it))"
  by pat_completeness auto
termination
  by (relation "measure (\<lambda>(n, it). length it)") (auto simp: take_eq_Nil)

declare chunks.simps [simp del]

definition get_chunks :: "'a list \<Rightarrow> int \<Rightarrow> error + 'a list list" where
  "get_chunks iterable sz =
     (if sz < 0 then Inl ValueError else Inr (chunks (nat sz) iterable))"

text \<open>
  The paginator with the fields \<open>ctx.author.id\<close>, \<open>per_page\<close>, \<open>title\<close>,
  \<open>show_page_count\<close> and \<open>lines\<close>; its field \<open>pages\<close> is assigned by \<open>start\<close> and
  passed along here.
\<close>

record RedPaginator =
  rp_author_id :: nat
  rp_per_page :: int
  rp_title :: "string option"
  rp_show_page_count :: bool
  rp_lines :: "string list"

definition add_lines :: "string \<Rightarrow> string \<Rightarrow> RedPaginator \<Rightarrow> RedPaginator" where
  "add_lines line sep rp = rp\<lparr>rp_lines := rp_lines rp @ [line @ sep]\<rparr>"

text \<open>\<open>discord.Color.dark_embed()\<close>, the default colour of the property \<open>embed\<close>.\<close>

definition dark_embed :: int where
  "dark_embed = 0x2B2D31"

text \<open>The property \<open>RedPaginator.embed\<close>, for the page set \<open>ps\<close> held in \<open>self.pages\<close>.\<close>

definition paginator_embed :: "RedPaginator \<Rightarrow> Pages \<Rightarrow> error + Embed" where
  "paginator_embed rp ps =
     (case current_page ps of
        Inl e \<Rightarrow> Inl e
      | Inr page \<Rightarrow>
          Inr \<lparr>title = (if rp_title rp = None \<or> rp_title rp = Some [] then None else rp_title rp),
               description = content page,
               color = Some dark_embed,
               footer = (if rp_show_page_count rp
                         then Some (''Page '' @ str_int (index page) @ '' of ''
                                    @ str_int (total_pages ps))
                         else None)\<rparr>)"

text \<open>
  \<open>RedPaginator.start\<close>. It returns the view it created, if any, with the message \<open>m\<close>
  that \<open>ctx.send\<close> returned assigned to it, and the calls that went through. The
  property \<open>embed\<close> is read for the view and again for \<open>ctx.send\<close>, with the same
  result.
\<close>

definition start ::
  "transport \<Rightarrow> nat \<Rightarrow> RedPaginator \<Rightarrow> error + PaginatorView option \<times> effect list" where
  "start tr m rp =
     (case get_chunks (rp_lines rp) (rp_per_page rp) of
        Inl e \<Rightarrow> Inl e
      | Inr cs \<Rightarrow>
          (let ps = Pages_init (map concat cs)
           in if \<not> total_pages ps > 1 then
                (case paginator_embed rp ps of
                   Inl e \<Rightarrow> Inl e
                 | Inr em \<Rightarrow>
                     (case tr (Send_message em None) of
                        Some e \<Rightarrow> Inl e
                      | None \<Rightarrow> Inr (None, [Send_message em None])))
              else
                (case paginator_embed rp ps of
                   Inl e \<Rightarrow> Inl e
                 | Inr em \<Rightarrow>
                     (let view = PaginatorView_init (rp_author_id rp) ps em
                                   (rp_show_page_count rp)
                      in case tr (Send_message em (Some (children view))) of
                           Some e \<Rightarrow> Inl e
                         | None \<Rightarrow>
                             Inr (Some (view\<lparr>message := Some m\<rparr>),
                                  [Send_message em (Some (children view))])))))"

section \<open>utils.py: create_embeds\<close>

definition max_desc_length :: nat where
  "max_desc_length = 4096"

text \<open>\<open>discord.Embed(title="", description="", color=color)\<close>\<close>

definition new_embed :: "int option \<Rightarrow> Embed" where
  "new_embed c = \<lparr>title = Some [], description = [], color = c, footer = None\<rparr>"

text \<open>
  One pass of the loop body for the record \<open>arg\<close> at position \<open>i\<close> of \<open>n\<close>. The state is
  the triple of the local variables \<open>embeds\<close>, \<open>embed\<close> (here \<open>em\<close>) and \<open>append_list\<close>;
  \<open>clr\<close> is the argument \<open>color\<close>.
  \<open>fmt_line.format(**arg)\<close> is Python's \<open>str.format\<close>, the parameter \<open>format\<close>: it gives
  the rendered line or the exception it raises. \<open>per_page\<close> is \<open>None\<close> or an integer;
  \<open>i % per_page\<close> raises for zero, and for other integers it is \<open>mod\<close> (the sign of the
  result is the divisor's in both).
\<close>

definition create_embeds_body ::
  "(string \<Rightarrow> 'a \<Rightarrow> error + string) \<Rightarrow> string \<Rightarrow> int option \<Rightarrow> int option
     \<Rightarrow> nat \<Rightarrow> nat \<Rightarrow> 'a \<Rightarrow> Embed list \<times> Embed \<times> bool
     \<Rightarrow> error + Embed list \<times> Embed \<times> bool" where
  "create_embeds_body format fmt_line clr per_page n i arg st =
     (case st of (embeds, em, append_list) \<Rightarrow>
        (case format fmt_line arg of
           Inl e \<Rightarrow> Inl e
         | Inr line \<Rightarrow>
             (let finish = (\<lambda>(embeds', em').
                    Inr (embeds', em'\<lparr>description := description em' @ line @ [CHR 0x0A]\<rparr>,
                         (if int i = int n - 1 then True else append_list)))
              in if length (description em) + length line + 1 > max_desc_length
                 then finish (embeds @ [em], new_embed clr)
                 else (case per_page of
                         None \<Rightarrow> finish (embeds, em)
                       | Some k \<Rightarrow>
                           if k = 0 then Inl ZeroDivisionError
                           else if (1::int) > 0 \<and> int i mod k = 0
                                then finish (embeds @ [em], new_embed clr)
                                else finish (embeds, em)))))"

fun create_embeds_loop ::
  "(string \<Rightarrow> 'a \<Rightarrow> error + string) \<Rightarrow> string \<Rightarrow> int option \<Rightarrow> int option
     \<Rightarrow> nat \<Rightarrow> nat \<Rightarrow> 'a list \<Rightarrow> Embed list \<times> Embed \<times> bool
     \<Rightarrow> error + Embed list \<times> Embed \<times> bool" where
  "create_embeds_loop format fmt_line clr per_page n i [] st = Inr st"
| "create_embeds_loop format fmt_line clr per_page n i (arg # args) st =
     (case create_embeds_body format fmt_line clr per_page n i arg st of
        Inl e \<Rightarrow> Inl e
      | Inr st' \<Rightarrow> create_embeds_loop format fmt_line clr per_page n (Suc i) args st')"

definition create_embeds ::
  "(string \<Rightarrow> 'a \<Rightarrow> error + string) \<Rightarrow> string \<Rightarrow> 'a list \<Rightarrow> int option \<Rightarrow> int option
     \<Rightarrow> error + Embed list option" where
  "create_embeds format fmt_line arguments clr per_page =
     (if arguments = [] then Inr None
      else (case create_embeds_loop format fmt_line clr per_page (length arguments) 0
                   arguments ([], new_embed clr, False) of
              Inl e \<Rightarrow> Inl e
            | Inr (embeds, em, append_list) \<Rightarrow>
                Inr (Some (if append_list then embeds @ [em] else embeds))))"

section \<open>utils.py: group_items_by\<close>

text \<open>
  Objects are of a type \<open>'o\<close>; \<open>getattr\<close> gives the attribute of an object or fails
  (\<open>AttributeError\<close>), and \<open>hashable\<close> tells which objects can be keys of a dict
  (\<open>TypeError\<close> otherwise). Keys are compared by the equality of \<open>'o\<close>.
\<close>

fun get_attr :: "('o \<Rightarrow> string \<Rightarrow> 'o option) \<Rightarrow> 'o \<Rightarrow> string list \<Rightarrow> error + 'o" where
  "get_attr getattr obj [] = Inr obj"
| "get_attr getattr obj (attr # path) =
     (case getattr obj attr of
        None \<Rightarrow> Inl AttributeError
      | Some obj' \<Rightarrow> get_attr getattr obj' path)"

text \<open>
  The first loop. The dict \<open>groups\<close> is the list of its entries in the order of their
  insertion. A value that is not yet a key gets the entry \<open>[]\<close> and, in the same branch,
  the item appended to it; an item whose value is a key already changes nothing.
\<close>

fun collect_groups ::
  "('o \<Rightarrow> string \<Rightarrow> 'o option) \<Rightarrow> ('o \<Rightarrow> bool) \<Rightarrow> string list \<Rightarrow> 'o list
     \<Rightarrow> ('o \<times> 'o list) list \<Rightarrow> error + ('o \<times> 'o list) list" where
  "collect_groups getattr hashable path [] groups = Inr groups"
| "collect_groups getattr hashable path (item # items) groups =
     (case get_attr getattr item path of
        Inl e \<Rightarrow> Inl e
      | Inr v \<Rightarrow>
          if \<not> hashable v then Inl TypeError
          else if map_of groups v = None
               then collect_groups getattr hashable path items (groups @ [(v, [] @ [item])])
               else collect_groups getattr hashable path items groups)"

fun group_items_by ::
  "('o \<Rightarrow> string \<Rightarrow> 'o option) \<Rightarrow> ('o \<Rightarrow> bool) \<Rightarrow> 'o list \<Rightarrow> string list
     \<Rightarrow> error + 'o list list" where
  "group_items_by getattr hashable items [] = Inr [items]"
| "group_items_by getattr hashable items (key # sub_key_path) =
     (case collect_groups getattr hashable (split_on CHR ''.'' key) items [] of
        Inl e \<Rightarrow> Inl e
      | Inr groups \<Rightarrow>
          fold (\<lambda>group acc.
                  case acc of
                    Inl e \<Rightarrow> Inl e
                  | Inr sub_groups \<Rightarrow>
                      (case group_items_by getattr hashable group sub_key_path of
                         Inl e \<Rightarrow> Inl e
                       | Inr r \<Rightarrow> Inr (sub_groups @ r)))
               (map snd groups) (Inr []))"

section \<open>Invariants and example data\<close>

text \<open>The invariant of the cursor.\<close>

definition cursor_ok :: "Pages \<Rightarrow> bool" where
  "cursor_ok p \<longleftrightarrow> 1 \<le> cur_page p \<and> cur_page p \<le> total_pages p"

text \<open>
  The controls follow the cursor: at least two pages, the cursor within them, the four
  buttons under their names, and each disabled or enabled as the position of the cursor
  asks.
\<close>

definition view_ok :: "PaginatorView \<Rightarrow> bool" where
  "view_ok v \<longleftrightarrow>
     2 \<le> total_pages (view_pages v) \<and> cursor_ok (view_pages v)
     \<and> map custom_id (children v) = [''first'', ''previous'', ''next'', ''last'']
     \<and> map disabled (children v) =
         (if cur_page (view_pages v) = 1 then [True, True, False, False]
          else if cur_page (view_pages v) = total_pages (view_pages v)
               then [False, False, True, True]
               else [False, False, False, False])"

text \<open>
  The part of it that holds of every constructed view, wherever its cursor was at
  construction.
\<close>

definition view_shape :: "PaginatorView \<Rightarrow> bool" where
  "view_shape v \<longleftrightarrow>
     2 \<le> total_pages (view_pages v) \<and> cursor_ok (view_pages v)
     \<and> map custom_id (children v) = [''first'', ''previous'', ''next'', ''last'']"

text \<open>
  For the examples: \<open>str.format\<close> at the template \<open>{x}\<close> and a record whose values are
  strings gives the value stored under \<open>x\<close>, and raises \<open>KeyError\<close> when there is
  none. No example uses another template, and \<open>format_x\<close> fails on all of them.
\<close>

definition format_x :: "string \<Rightarrow> (string \<times> string) list \<Rightarrow> error + string" where
  "format_x fmt_line arg =
     (if fmt_line = ''{x}''
      then (case map_of arg ''x'' of None \<Rightarrow> Inl KeyError | Some v \<Rightarrow> Inr v)
      else Inl ValueError)"

text \<open>
  A paginator with five lines and one line on each page, started by the user 7, and the
  view that \<open>start\<close> creates for it when the service returns the message 99.
\<close>

definition rp5 :: RedPaginator where
  "rp5 = \<lparr>rp_author_id = 7, rp_per_page = 1, rp_title = None, rp_show_page_count = True,
           rp_lines = [''a'', ''b'', ''c'', ''d'', ''e'']\<rparr>"

definition view5 :: PaginatorView where
  "view5 =
     \<lparr>ctx_author_id = 7,
      view_pages = \<lparr>pages = [''a'', ''b'', ''c'', ''d'', ''e''], cur_page = 1\<rparr>,
      embed = \<lparr>title = None, description = ''a'', color = Some dark_embed,
               footer = Some ''Page 1 of 5''\<rparr>,
      show_page_count = True,
      children =
        [\<lparr>custom_id = ''first'', style = green, disabled = True\<rparr>,
         \<lparr>custom_id = ''previous'', style = green, disabled = True\<rparr>,
         \<lparr>custom_id = ''next'', style = green, disabled = False\<rparr>,
         \<lparr>custom_id = ''last'', style = green, disabled = False\<rparr>],
      message = Some 99\<rparr>"

section \<open>Verified properties\<close>

subsection \<open>Pages: boundaries and the cursor invariant\<close>

lemma getitem_in_range:
  "0 \<le> i \<Longrightarrow> i < int (length xs) \<Longrightarrow> getitem xs i = Inr (xs ! nat i)"
  by (simp add: getitem_def)

lemma current_page_ok:
  "cursor_ok p \<Longrightarrow>
     current_page p = Inr \<lparr>index = cur_page p, content = pages p ! nat (cur_page p - 1)\<rparr>"
  by (simp add: cursor_ok_def current_page_def total_pages_def getitem_in_range)

lemma navigate_pages: "pages (snd (navigate n p)) = pages p"
  by (cases n)
     (simp_all add: first_page_def last_page_def next_page_def previous_page_def Let_def)

lemma navigate_cursor_ok:
  "cursor_ok p \<Longrightarrow> cursor_ok (snd (navigate n p))"
  by (cases n)
     (auto simp: cursor_ok_def total_pages_def first_page_def last_page_def next_page_def
        previous_page_def Let_def)

lemma navigate_all_pages: "pages (navigate_all ns p) = pages p"
  by (induction ns arbitrary: p) (simp_all add: navigate_pages)

lemma navigate_all_cursor_ok: "cursor_ok p \<Longrightarrow> cursor_ok (navigate_all ns p)"
  by (induction ns arbitrary: p) (simp_all add: navigate_cursor_ok)

lemma Pages_init_cursor_ok: "ps \<noteq> [] \<Longrightarrow> cursor_ok (Pages_init ps)"
  by (cases ps) (simp_all add: cursor_ok_def Pages_init_def total_pages_def)

text \<open>
  C3 as the code has it. At the last page \<open>next_page\<close>, and at the first page
  \<open>previous_page\<close>, returns \<open>None\<close> without raising and leaves the object as it was: the
  cursor does not move or wrap, and \<open>current_page\<close> still gives the page it gave before.
  The value returned is the signal \<open>None\<close>, not that page.
\<close>

theorem boundary_returns_None:
  "(cur_page p = total_pages p \<longrightarrow> next_page p = (Inr None, p))
   \<and> (cur_page p = 1 \<longrightarrow> previous_page p = (Inr None, p))"
  by (simp add: next_page_def previous_page_def)

theorem boundary_returns_None_witness:
  "cur_page \<lparr>pages = [''a'', ''b''], cur_page = 2\<rparr> = total_pages \<lparr>pages = [''a'', ''b''], cur_page = 2\<rparr>
   \<and> next_page \<lparr>pages = [''a'', ''b''], cur_page = 2\<rparr>
       = (Inr None, \<lparr>pages = [''a'', ''b''], cur_page = 2\<rparr>)
   \<and> previous_page \<lparr>pages = [''a'', ''b''], cur_page = 1\<rparr>
       = (Inr None, \<lparr>pages = [''a'', ''b''], cur_page = 1\<rparr>)"
  using boundary_returns_None [of "\<lparr>pages = [''a'', ''b''], cur_page = 2\<rparr>"]
    boundary_returns_None [of "\<lparr>pages = [''a'', ''b''], cur_page = 1\<rparr>"]
  by (simp add: total_pages_def)

text \<open>
  C3 as stated fails: with two pages and the cursor on the second, \<open>current_page\<close> is
  page 2 with content \<open>b\<close>, and \<open>next_page\<close> returns \<open>None\<close>.
\<close>

theorem next_page_boundary_counterexample:
  "cur_page \<lparr>pages = [''a'', ''b''], cur_page = 2\<rparr> = total_pages \<lparr>pages = [''a'', ''b''], cur_page = 2\<rparr>
   \<and> current_page \<lparr>pages = [''a'', ''b''], cur_page = 2\<rparr> = Inr \<lparr>index = 2, content = ''b''\<rparr>
   \<and> fst (next_page \<lparr>pages = [''a'', ''b''], cur_page = 2\<rparr>) = Inr None
   \<and> fst (next_page \<lparr>pages = [''a'', ''b''], cur_page = 2\<rparr>)
       \<noteq> Inr (Some \<lparr>index = 2, content = ''b''\<rparr>)"
  by (simp add: next_page_def total_pages_def current_page_def getitem_def)

text \<open>
  C4. For a non-empty page list, after any sequence of \<open>first_page\<close>, \<open>previous_page\<close>,
  \<open>next_page\<close> and \<open>last_page\<close> on the freshly constructed object the page list is the
  same, the cursor is between 1 and \<open>total_pages\<close>, and \<open>current_page\<close> returns a page whose
  index is between 1 and \<open>total_pages\<close>.
\<close>

theorem cursor_in_range:
  assumes "ps \<noteq> []"
  shows "pages (navigate_all ns (Pages_init ps)) = ps
    \<and> 1 \<le> cur_page (navigate_all ns (Pages_init ps))
    \<and> cur_page (navigate_all ns (Pages_init ps)) \<le> total_pages (navigate_all ns (Pages_init ps))
    \<and> (\<exists>pg. current_page (navigate_all ns (Pages_init ps)) = Inr pg
          \<and> 1 \<le> index pg \<and> index pg \<le> total_pages (navigate_all ns (Pages_init ps)))"
proof -
  let ?p = "navigate_all ns (Pages_init ps)"
  have ok: "cursor_ok ?p"
    using assms by (simp add: Pages_init_cursor_ok navigate_all_cursor_ok)
  have "pages ?p = ps"
    by (simp add: navigate_all_pages Pages_init_def)
  moreover have "1 \<le> cur_page ?p" "cur_page ?p \<le> total_pages ?p"
    using ok by (simp_all add: cursor_ok_def)
  moreover have "\<exists>pg. current_page ?p = Inr pg \<and> 1 \<le> index pg \<and> index pg \<le> total_pages ?p"
    using ok current_page_ok [OF ok] by (simp add: cursor_ok_def)
  ultimately show ?thesis by simp
qed

theorem cursor_in_range_witness:
  "[''a'', ''b'', ''c''] \<noteq> []
   \<and> cur_page (navigate_all [Next, Next, Next, Previous, Last, First, Previous]
        (Pages_init [''a'', ''b'', ''c''])) = 1
   \<and> current_page (navigate_all [Next, Next, Next, Previous, Last, First, Previous]
        (Pages_init [''a'', ''b'', ''c''])) = Inr \<lparr>index = 1, content = ''a''\<rparr>"
  using cursor_in_range [of "[''a'', ''b'', ''c'']" "[Next, Next, Next, Previous, Last, First, Previous]"]
  by (simp add: Pages_init_def next_page_def previous_page_def first_page_def last_page_def
        total_pages_def current_page_def getitem_def)

subsection \<open>create\_embeds\<close>

text \<open>
  C9. For the empty argument list \<open>create_embeds\<close> returns \<open>None\<close>: no list, and so no
  list holding one empty embed.
\<close>

theorem create_embeds_empty:
  "create_embeds format fmt_line [] clr per_page = Inr None"
  by (simp add: create_embeds_def)

subsection \<open>group\_items\_by\<close>

lemma collect_groups_append:
  "collect_groups ga h path (xs @ ys) g =
     (case collect_groups ga h path xs g of
        Inl e \<Rightarrow> Inl e
      | Inr g' \<Rightarrow> collect_groups ga h path ys g')"
  by (induction xs arbitrary: g) (simp_all split: sum.splits)

lemma map_of_None_iff: "map_of g v = None \<longleftrightarrow> v \<notin> set (map fst g)"
  by (simp add: map_of_eq_None_iff)

lemma firsts_snoc:
  "filter (\<lambda>i. \<forall>j<i. k ((xs @ [x]) ! j) \<noteq> k ((xs @ [x]) ! i)) [0..<length (xs @ [x])] =
     filter (\<lambda>i. \<forall>j<i. k (xs ! j) \<noteq> k (xs ! i)) [0..<length xs]
     @ (if k x \<in> k ` set xs then [] else [length xs])"
proof -
  have old: "filter (\<lambda>i. \<forall>j<i. k ((xs @ [x]) ! j) \<noteq> k ((xs @ [x]) ! i)) [0..<length xs]
      = filter (\<lambda>i. \<forall>j<i. k (xs ! j) \<noteq> k (xs ! i)) [0..<length xs]"
    by (rule filter_cong) (auto simp: nth_append)
  have new: "(\<forall>j<length xs. k ((xs @ [x]) ! j) \<noteq> k x) \<longleftrightarrow> k x \<notin> k ` set xs"
  proof
    assume "\<forall>j<length xs. k ((xs @ [x]) ! j) \<noteq> k x"
    then have "\<forall>j<length xs. k (xs ! j) \<noteq> k x"
      by (simp add: nth_append)
    then show "k x \<notin> k ` set xs"
      by (auto simp: in_set_conv_nth)
  next
    assume "k x \<notin> k ` set xs"
    then have "\<forall>j<length xs. k (xs ! j) \<noteq> k x"
      by (metis imageI nth_mem)
    then show "\<forall>j<length xs. k ((xs @ [x]) ! j) \<noteq> k x"
      by (simp add: nth_append)
  qed
  show ?thesis
    using old new by simp
qed

lemma collect_groups_firsts:
  "collect_groups ga h path items [] = Inr groups \<Longrightarrow>
     map snd groups =
       map (\<lambda>i. [items ! i])
         (filter (\<lambda>i. \<forall>j<i. get_attr ga (items ! j) path \<noteq> get_attr ga (items ! i) path)
            [0..<length items])
     \<and> Inr ` set (map fst groups) = (\<lambda>item. get_attr ga item path) ` set items
     \<and> distinct (map fst groups)"
proof (induction items arbitrary: groups rule: rev_induct)
  case Nil
  then show ?case by simp
next
  case (snoc x xs)
  let ?k = "\<lambda>item. get_attr ga item path"
  from snoc.prems obtain g1 where g1: "collect_groups ga h path xs [] = Inr g1"
    and step: "collect_groups ga h path [x] g1 = Inr groups"
    by (auto simp: collect_groups_append split: sum.splits)
  note IH = snoc.IH [OF g1]
  from step obtain v where v: "?k x = Inr v"
    and groups: "groups = (if v \<in> set (map fst g1) then g1 else g1 @ [(v, [x])])"
    by (auto simp: map_of_None_iff split: sum.splits if_splits)
  have mem: "v \<in> set (map fst g1) \<longleftrightarrow> ?k x \<in> ?k ` set xs"
  proof -
    have "v \<in> set (map fst g1) \<longleftrightarrow> (Inr v :: error + 'a) \<in> Inr ` set (map fst g1)"
      by blast
    then show ?thesis using IH v by simp
  qed
  have snd_part: "map snd groups =
       map (\<lambda>i. [(xs @ [x]) ! i])
         (filter (\<lambda>i. \<forall>j<i. ?k ((xs @ [x]) ! j) \<noteq> ?k ((xs @ [x]) ! i)) [0..<length (xs @ [x])])"
  proof -
    have "map (\<lambda>i. [(xs @ [x]) ! i]) (filter (\<lambda>i. \<forall>j<i. ?k (xs ! j) \<noteq> ?k (xs ! i)) [0..<length xs])
        = map (\<lambda>i. [xs ! i]) (filter (\<lambda>i. \<forall>j<i. ?k (xs ! j) \<noteq> ?k (xs ! i)) [0..<length xs])"
      by (rule map_cong) (auto simp: nth_append)
    then show ?thesis
      unfolding firsts_snoc [of ?k xs x] using IH groups mem by simp
  qed
  have fst_part: "Inr ` set (map fst groups) = ?k ` set (xs @ [x])"
    using IH groups v by auto
  have dist: "distinct (map fst groups)"
    using IH groups by simp
  from snd_part fst_part dist show ?case by blast
qed

lemma group_items_by_single:
  "group_items_by ga h [x] key_path = Inr r \<Longrightarrow> r = [[x]]"
proof (induction key_path arbitrary: r)
  case Nil
  then show ?case by simp
next
  case (Cons key sub)
  then show ?case
    by (auto split: sum.splits option.splits if_splits)
qed

lemma fold_groups_Inl:
  "fold (\<lambda>group acc. case acc of Inl e \<Rightarrow> Inl e
           | Inr sub_groups \<Rightarrow> (case f group of Inl e \<Rightarrow> Inl e | Inr r \<Rightarrow> Inr (sub_groups @ r)))
     gs (Inl e) = Inl e"
  by (induction gs) simp_all

lemma fold_groups_singletons:
  assumes "\<And>x r. f [x] = Inr r \<Longrightarrow> r = [[x]]"
  shows "fold (\<lambda>group acc. case acc of Inl e \<Rightarrow> Inl e
           | Inr sub_groups \<Rightarrow> (case f group of Inl e \<Rightarrow> Inl e | Inr r \<Rightarrow> Inr (sub_groups @ r)))
     (map (\<lambda>x. [x]) xs) (Inr acc) = Inr res \<Longrightarrow> res = acc @ map (\<lambda>x. [x]) xs"
proof (induction xs arbitrary: acc)
  case Nil
  then show ?case by simp
next
  case (Cons x xs)
  show ?case
  proof (cases "f [x]")
    case (Inl e)
    with Cons.prems show ?thesis by (simp add: fold_groups_Inl)
  next
    case (Inr r)
    with assms have "r = [[x]]" by blast
    with Inr Cons.prems Cons.IH [of "acc @ [[x]]"] show ?thesis by simp
  qed
qed

text \<open>
  C10. When \<open>group_items_by\<close> returns for a key path that starts with \<open>key\<close>, the result
  holds, each in a list of its own and in the order of the input, exactly the items whose
  value under \<open>key\<close> no earlier item has. So every inner list has one element, an item
  that shares its value with an earlier item is in no group, and the number of groups
  (and of items in them) is the number of distinct values.
\<close>

theorem group_items_by_singletons:
  assumes "group_items_by getattr hashable items (key # sub_key_path) = Inr res"
  shows "res = map (\<lambda>i. [items ! i])
           (filter (\<lambda>i. \<forall>j<i. get_attr getattr (items ! j) (split_on CHR ''.'' key)
                                \<noteq> get_attr getattr (items ! i) (split_on CHR ''.'' key))
              [0..<length items])
    \<and> (\<forall>g \<in> set res. length g = 1)
    \<and> length res = card ((\<lambda>item. get_attr getattr item (split_on CHR ''.'' key)) ` set items)
    \<and> length (concat res)
        = card ((\<lambda>item. get_attr getattr item (split_on CHR ''.'' key)) ` set items)"
proof -
  let ?path = "split_on CHR ''.'' key"
  let ?k = "\<lambda>item. get_attr getattr item ?path"
  let ?firsts = "filter (\<lambda>i. \<forall>j<i. ?k (items ! j) \<noteq> ?k (items ! i)) [0..<length items]"
  from assms obtain groups where
    groups: "collect_groups getattr hashable ?path items [] = Inr groups"
    and fold: "fold (\<lambda>group acc. case acc of Inl e \<Rightarrow> Inl e
           | Inr sub_groups \<Rightarrow>
               (case group_items_by getattr hashable group sub_key_path of
                  Inl e \<Rightarrow> Inl e | Inr r \<Rightarrow> Inr (sub_groups @ r)))
         (map snd groups) (Inr []) = Inr res"
    by (auto split: sum.splits)
  note char = collect_groups_firsts [OF groups]
  have snd_eq: "map snd groups = map (\<lambda>x. [x]) (map (\<lambda>i. items ! i) ?firsts)"
    using char by simp
  have "res = [] @ map (\<lambda>x. [x]) (map (\<lambda>i. items ! i) ?firsts)"
  proof (rule fold_groups_singletons
      [where f = "\<lambda>g. group_items_by getattr hashable g sub_key_path"])
    show "\<And>x r. group_items_by getattr hashable [x] sub_key_path = Inr r \<Longrightarrow> r = [[x]]"
      by (rule group_items_by_single)
    show "fold (\<lambda>group acc. case acc of Inl e \<Rightarrow> Inl e
           | Inr sub_groups \<Rightarrow>
               (case group_items_by getattr hashable group sub_key_path of
                  Inl e \<Rightarrow> Inl e | Inr r \<Rightarrow> Inr (sub_groups @ r)))
         (map (\<lambda>x. [x]) (map (\<lambda>i. items ! i) ?firsts)) (Inr []) = Inr res"
      using fold unfolding snd_eq .
  qed
  then have res: "res = map (\<lambda>i. [items ! i]) ?firsts"
    by (simp add: comp_def)
  have single: "\<forall>g \<in> set res. length g = 1"
    unfolding res by simp
  have "length res = length (map fst groups)"
    using char res by (metis length_map)
  also have "\<dots> = card (set (map fst groups))"
    using char distinct_card [of "map fst groups"] by simp
  also have "\<dots> = card ((Inr :: 'a \<Rightarrow> error + 'a) ` set (map fst groups))"
    by (simp add: card_image)
  also have "\<dots> = card (?k ` set items)"
    using char by simp
  finally have count: "length res = card (?k ` set items)" .
  have "length (concat res) = length res"
    unfolding res by (simp add: length_concat comp_def)
  with res single count show ?thesis by simp
qed

theorem group_items_by_singletons_witness:
  "group_items_by
     (\<lambda>obj attr. if attr = ''value'' then map_of [(''RED'', ''1''), (''GREEN'', ''2''), (''BLUE'', ''3'')] obj
                  else None)
     (\<lambda>obj. True) [''RED'', ''GREEN'', ''BLUE'', ''RED''] [''value'']
   = Inr [[''RED''], [''GREEN''], [''BLUE'']]
   \<and> length [[''RED''], [''GREEN''], [''BLUE'']]
       = card ((\<lambda>item. get_attr
            (\<lambda>obj attr. if attr = ''value'' then map_of [(''RED'', ''1''), (''GREEN'', ''2''), (''BLUE'', ''3'')] obj
                  else None) item (split_on CHR ''.'' ''value''))
          ` set [''RED'', ''GREEN'', ''BLUE'', ''RED''])"
proof -
  have run: "group_items_by
     (\<lambda>obj attr. if attr = ''value'' then map_of [(''RED'', ''1''), (''GREEN'', ''2''), (''BLUE'', ''3'')] obj
                  else None)
     (\<lambda>obj. True) [''RED'', ''GREEN'', ''BLUE'', ''RED''] [''value'']
   = Inr [[''RED''], [''GREEN''], [''BLUE'']]"
    by simp
  note count = group_items_by_singletons [OF run, THEN conjunct2, THEN conjunct2, THEN conjunct1]
  from run count show ?thesis by (rule conjI)
qed

subsection \<open>create\_embeds: one pass of the loop\<close>

text \<open>
  What one pass does once the record has rendered to \<open>line\<close>: either it closes the
  current embed and starts a new one with the line, or it appends the line to the
  current embed.
\<close>

lemma create_embeds_body_eq:
  assumes "format fmt_line arg = Inr line"
  shows "create_embeds_body format fmt_line clr per_page n i arg (embeds, em, al) =
     (if max_desc_length < length (description em) + length line + 1
         \<or> (\<exists>k. per_page = Some k \<and> k \<noteq> 0 \<and> int i mod k = 0)
      then Inr (embeds @ [em], (new_embed clr)\<lparr>description := line @ ''\<newline>''\<rparr>, al \<or> Suc i = n)
      else if per_page = Some 0 then Inl ZeroDivisionError
      else Inr (embeds, em\<lparr>description := description em @ line @ ''\<newline>''\<rparr>, al \<or> Suc i = n))"
proof -
  have flag: "(if int i = int n - 1 then True else al) = (al \<or> Suc i = n)"
    by auto
  show ?thesis
    using assms
    by (cases per_page) (simp_all add: create_embeds_body_def Let_def flag new_embed_def)
qed

text \<open>
  C1 on the code. With \<open>per_page = 2\<close> and five short records the result has four
  embeds, not three: the first one is empty, because the test on \<open>per_page\<close> also
  holds at position 0 (its guard is \<open>1 > 0\<close>), and the records follow in embeds of 2, 2
  and 1 lines.
\<close>

theorem create_embeds_five_records_per_page_two:
  "create_embeds format_x ''{x}''
     [[(''x'', ''a'')], [(''x'', ''b'')], [(''x'', ''c'')], [(''x'', ''d'')], [(''x'', ''e'')]]
     None (Some 2)
   = Inr (Some
       [\<lparr>title = Some [], description = [], color = None, footer = None\<rparr>,
        \<lparr>title = Some [], description = ''a\<newline>b\<newline>'', color = None, footer = None\<rparr>,
        \<lparr>title = Some [], description = ''c\<newline>d\<newline>'', color = None, footer = None\<rparr>,
        \<lparr>title = Some [], description = ''e\<newline>'', color = None, footer = None\<rparr>])"
  by (simp add: create_embeds_def create_embeds_body_def format_x_def new_embed_def
        max_desc_length_def)

text \<open>
  C8 as stated fails: at position 2 with \<open>per_page = 2\<close> the current embed holds six
  characters, the line fits, and the embed is closed all the same.
\<close>

theorem size_trigger_only_counterexample:
  "format_x ''{x}'' [(''x'', ''c'')] = Inr ''c''
   \<and> length (description ((new_embed None)\<lparr>description := ''a\<newline>b\<newline>''\<rparr>)) + length ''c'' + 1
       \<le> max_desc_length
   \<and> create_embeds_body format_x ''{x}'' None (Some 2) 5 2 [(''x'', ''c'')]
       ([new_embed None], (new_embed None)\<lparr>description := ''a\<newline>b\<newline>''\<rparr>, False)
     = Inr ([new_embed None, (new_embed None)\<lparr>description := ''a\<newline>b\<newline>''\<rparr>],
            (new_embed None)\<lparr>description := ''c\<newline>''\<rparr>, False)"
  by (simp add: create_embeds_body_def format_x_def new_embed_def max_desc_length_def)

text \<open>
  C8 as the code has it, for a record at position \<open>i\<close> that renders to \<open>line\<close>, with
  the budget of 4096 characters. If the description of the current embed, the line and
  one separator together exceed the budget, the embed is appended to the result and the
  line starts a new one. If they fit, the line is appended to the current embed when
  \<open>per_page\<close> is unset or \<open>i\<close> is not a multiple of it, and the embed is closed as
  before when \<open>i\<close> is a nonzero multiple of \<open>per_page\<close>.
\<close>

theorem create_embeds_body_closes:
  assumes "format fmt_line arg = Inr line"
  shows "(4096 < length (description em) + length line + 1 \<longrightarrow>
            create_embeds_body format fmt_line clr per_page n i arg (embeds, em, al)
            = Inr (embeds @ [em], (new_embed clr)\<lparr>description := line @ ''\<newline>''\<rparr>,
                   al \<or> Suc i = n))
    \<and> (length (description em) + length line + 1 \<le> 4096
         \<and> (per_page = None \<or> (\<exists>k. per_page = Some k \<and> k \<noteq> 0 \<and> int i mod k \<noteq> 0)) \<longrightarrow>
            create_embeds_body format fmt_line clr per_page n i arg (embeds, em, al)
            = Inr (embeds, em\<lparr>description := description em @ line @ ''\<newline>''\<rparr>,
                   al \<or> Suc i = n))
    \<and> (length (description em) + length line + 1 \<le> 4096
         \<and> (\<exists>k. per_page = Some k \<and> k \<noteq> 0 \<and> i \<noteq> 0 \<and> int i mod k = 0) \<longrightarrow>
            create_embeds_body format fmt_line clr per_page n i arg (embeds, em, al)
            = Inr (embeds @ [em], (new_embed clr)\<lparr>description := line @ ''\<newline>''\<rparr>,
                   al \<or> Suc i = n))"
  unfolding create_embeds_body_eq [where format = format and fmt_line = fmt_line, OF assms]
    max_desc_length_def
  by auto

theorem create_embeds_body_closes_witness:
  "format_x ''{x}'' [(''x'', ''c'')] = Inr ''c''
   \<and> create_embeds_body format_x ''{x}'' None None 3 2 [(''x'', ''c'')]
       ([], (new_embed None)\<lparr>description := replicate 4094 CHR ''a'' @ ''\<newline>''\<rparr>, False)
     = Inr ([(new_embed None)\<lparr>description := replicate 4094 CHR ''a'' @ ''\<newline>''\<rparr>],
            (new_embed None)\<lparr>description := ''c\<newline>''\<rparr>, True)
   \<and> create_embeds_body format_x ''{x}'' None None 3 2 [(''x'', ''c'')]
       ([], (new_embed None)\<lparr>description := ''a\<newline>b\<newline>''\<rparr>, False)
     = Inr ([], (new_embed None)\<lparr>description := ''a\<newline>b\<newline>c\<newline>''\<rparr>, True)
   \<and> create_embeds_body format_x ''{x}'' None (Some 2) 3 2 [(''x'', ''c'')]
       ([], (new_embed None)\<lparr>description := ''a\<newline>b\<newline>''\<rparr>, False)
     = Inr ([(new_embed None)\<lparr>description := ''a\<newline>b\<newline>''\<rparr>],
            (new_embed None)\<lparr>description := ''c\<newline>''\<rparr>, True)"
proof -
  have fmt: "format_x ''{x}'' [(''x'', ''c'')] = Inr ''c''"
    by (simp add: format_x_def)
  show ?thesis
    using fmt
      create_embeds_body_closes [where format = format_x and fmt_line = "''{x}''", OF fmt,
        where em = "(new_embed None)\<lparr>description := replicate 4094 CHR ''a'' @ ''\<newline>''\<rparr>"
          and clr = None and per_page = None and n = 3 and i = 2 and embeds = "[]" and al = False]
      create_embeds_body_closes [where format = format_x and fmt_line = "''{x}''", OF fmt,
        where em = "(new_embed None)\<lparr>description := ''a\<newline>b\<newline>''\<rparr>"
          and clr = None and per_page = None and n = 3 and i = 2 and embeds = "[]" and al = False]
      create_embeds_body_closes [where format = format_x and fmt_line = "''{x}''", OF fmt,
        where em = "(new_embed None)\<lparr>description := ''a\<newline>b\<newline>''\<rparr>"
          and clr = None and per_page = "Some 2" and n = 3 and i = 2 and embeds = "[]" and al = False]
    by (simp add: new_embed_def)
qed

subsection \<open>create\_embeds: the whole loop with per\_page set\<close>

lemma create_embeds_loop_append:
  "create_embeds_loop format fmt_line clr per_page n i (xs @ ys) st =
     (case create_embeds_loop format fmt_line clr per_page n i xs st of
        Inl e \<Rightarrow> Inl e
      | Inr st' \<Rightarrow> create_embeds_loop format fmt_line clr per_page n (i + length xs) ys st')"
  by (induction xs arbitrary: i st) (simp_all split: sum.splits)

lemma int_mod_eq_0_iff: "int i mod int K = 0 \<longleftrightarrow> i mod K = 0"
  by (simp flip: of_nat_mod)

lemma create_embeds_body_per_page:
  assumes "format fmt_line arg = Inr line" and "0 < K"
  shows "create_embeds_body format fmt_line clr (Some (int K)) n i arg (embeds, em, al) =
     (if max_desc_length < length (description em) + length line + 1 \<or> i mod K = 0
      then Inr (embeds @ [em], (new_embed clr)\<lparr>description := line @ ''\<newline>''\<rparr>, al \<or> Suc i = n)
      else Inr (embeds, em\<lparr>description := description em @ line @ ''\<newline>''\<rparr>, al \<or> Suc i = n))"
  using assms(2)
  unfolding create_embeds_body_eq [where format = format and fmt_line = fmt_line, OF assms(1)]
  by (simp add: int_mod_eq_0_iff)

lemma map_eq_map_Inr_Cons:
  assumes "map f (x # xs) = map Inr ls"
  obtains l ls' where "ls = l # ls'" and "f x = Inr l" and "map f xs = map Inr ls'"
  using assms by (cases ls) auto

text \<open>Between two multiples of \<open>per_page\<close>, lines that fit are appended to the embed.\<close>

lemma create_embeds_loop_no_close:
  assumes "0 < K"
  shows "map (format fmt_line) xs = map Inr ls \<Longrightarrow>
     \<forall>m<length xs. (i + m) mod K \<noteq> 0 \<Longrightarrow>
     length (description em) + sum_list (map (\<lambda>l. length l + 1) ls) \<le> max_desc_length \<Longrightarrow>
     \<exists>al'. create_embeds_loop format fmt_line clr (Some (int K)) n i xs (embeds, em, al) =
       Inr (embeds, em\<lparr>description := description em @ concat (map (\<lambda>l. l @ ''\<newline>'') ls)\<rparr>, al')"
proof (induction xs arbitrary: ls i em al)
  case Nil
  then show ?case by simp
next
  case (Cons x xs)
  from Cons.prems(1) obtain l ls' where ls: "ls = l # ls'" and fx: "format fmt_line x = Inr l"
    and rest: "map (format fmt_line) xs = map Inr ls'"
    by (rule map_eq_map_Inr_Cons)
  let ?em1 = "em\<lparr>description := description em @ l @ ''\<newline>''\<rparr>"
  have here: "i mod K \<noteq> 0"
    using Cons.prems(2) by auto
  have fits: "\<not> max_desc_length < length (description em) + length l + 1"
    using Cons.prems(3) ls by simp
  have body: "create_embeds_body format fmt_line clr (Some (int K)) n i x (embeds, em, al)
      = Inr (embeds, ?em1, al \<or> Suc i = n)"
    using here fits by (simp add: create_embeds_body_per_page [where format = format and fmt_line = fmt_line, OF fx assms])
  have later: "\<forall>m<length xs. (Suc i + m) mod K \<noteq> 0"
  proof (intro allI impI)
    fix m assume "m < length xs"
    then have "Suc m < length (x # xs)" by simp
    with Cons.prems(2) have "(i + Suc m) mod K \<noteq> 0" by blast
    then show "(Suc i + m) mod K \<noteq> 0" by simp
  qed
  have size: "length (description ?em1) + sum_list (map (\<lambda>l. length l + 1) ls') \<le> max_desc_length"
    using Cons.prems(3) ls by simp
  from Cons.IH [OF rest later size, of "al \<or> Suc i = n"] obtain al' where
    "create_embeds_loop format fmt_line clr (Some (int K)) n (Suc i) xs
        (embeds, ?em1, al \<or> Suc i = n) =
       Inr (embeds, ?em1\<lparr>description := description ?em1 @ concat (map (\<lambda>l. l @ ''\<newline>'') ls')\<rparr>, al')"
    by blast
  then show ?case
    using body ls by simp
qed

text \<open>
  A run of at most \<open>per_page\<close> records that starts at a multiple of \<open>per_page\<close> and
  fits the budget closes the embed it found and leaves one embed with its lines.
\<close>

lemma create_embeds_loop_block:
  assumes "0 < K" and "i mod K = 0" and "xs \<noteq> []" and "length xs \<le> K"
    and "map (format fmt_line) xs = map Inr ls"
    and "sum_list (map (\<lambda>l. length l + 1) ls) \<le> max_desc_length"
  shows "\<exists>al'. create_embeds_loop format fmt_line clr (Some (int K)) n i xs (embeds, em, al) =
       Inr (embeds @ [em],
            (new_embed clr)\<lparr>description := concat (map (\<lambda>l. l @ ''\<newline>'') ls)\<rparr>, al')"
proof -
  from assms(3) obtain x xs' where xs: "xs = x # xs'"
    by (cases xs) auto
  from assms(5) xs obtain l ls' where ls: "ls = l # ls'" and fx: "format fmt_line x = Inr l"
    and rest: "map (format fmt_line) xs' = map Inr ls'"
    by (auto elim: map_eq_map_Inr_Cons)
  let ?em1 = "(new_embed clr)\<lparr>description := l @ ''\<newline>''\<rparr>"
  have body: "create_embeds_body format fmt_line clr (Some (int K)) n i x (embeds, em, al)
      = Inr (embeds @ [em], ?em1, al \<or> Suc i = n)"
    using assms(2) by (simp add: create_embeds_body_per_page [where format = format and fmt_line = fmt_line, OF fx assms(1)])
  have later: "\<forall>m<length xs'. (Suc i + m) mod K \<noteq> 0"
  proof (intro allI impI)
    fix m assume "m < length xs'"
    with assms(4) xs have small: "Suc m < K" by simp
    have "(Suc i + m) mod K = (i + Suc m) mod K"
      by simp
    also have "\<dots> = (i mod K + Suc m) mod K"
      by (rule mod_add_left_eq [symmetric])
    also have "\<dots> = Suc m"
      using assms(2) small by simp
    finally show "(Suc i + m) mod K \<noteq> 0" by simp
  qed
  have size: "length (description ?em1) + sum_list (map (\<lambda>l. length l + 1) ls') \<le> max_desc_length"
    using assms(6) ls by simp
  from create_embeds_loop_no_close [where format = format and fmt_line = fmt_line
      and clr = clr and n = n and embeds = "embeds @ [em]" and al = "al \<or> Suc i = n",
      OF assms(1) rest later size]
  obtain al' where
    "create_embeds_loop format fmt_line clr (Some (int K)) n (Suc i) xs'
        (embeds @ [em], ?em1, al \<or> Suc i = n) =
       Inr (embeds @ [em],
            ?em1\<lparr>description := description ?em1 @ concat (map (\<lambda>l. l @ ''\<newline>'') ls')\<rparr>, al')"
    by blast
  then show ?thesis
    using body xs ls by simp
qed

text \<open>
  Any number of such runs: from a multiple of \<open>per_page\<close> the loop closes the embed it
  found and then one embed for each full run before the last.
\<close>

lemma create_embeds_loop_blocks:
  assumes "0 < K"
  shows "xs \<noteq> [] \<Longrightarrow> i mod K = 0 \<Longrightarrow> map (format fmt_line) xs = map Inr ls \<Longrightarrow>
     \<forall>j. sum_list (map (\<lambda>l. length l + 1) (take K (drop (j * K) ls))) \<le> max_desc_length \<Longrightarrow>
     \<exists>rest em' al'.
       create_embeds_loop format fmt_line clr (Some (int K)) n i xs (embeds, em, al) =
         Inr (embeds @ em # rest, em', al')
       \<and> Suc (length rest) = (length xs + K - 1) div K"
proof (induction xs arbitrary: i ls embeds em al rule: length_induct)
  case (1 xs)
  have len: "length ls = length xs"
    using "1.prems"(3) by (metis length_map)
  show ?case
  proof (cases "length xs \<le> K")
    case True
    have fit: "sum_list (map (\<lambda>l. length l + 1) ls) \<le> max_desc_length"
      using "1.prems"(4) [rule_format, of 0] True len by simp
    from create_embeds_loop_block [where format = format and fmt_line = fmt_line
        and clr = clr and n = n and embeds = embeds and em = em and al = al,
        OF assms "1.prems"(2) "1.prems"(1) True "1.prems"(3) fit]
    obtain al' where run: "create_embeds_loop format fmt_line clr (Some (int K)) n i xs
        (embeds, em, al) =
       Inr (embeds @ [em],
            (new_embed clr)\<lparr>description := concat (map (\<lambda>l. l @ ''\<newline>'') ls)\<rparr>, al')"
      by blast
    from "1.prems"(1) obtain m where m: "length xs = Suc m"
      by (cases xs) simp_all
    with True have "length xs + K - 1 = m + K" and "m < K"
      by simp_all
    then have "(length xs + K - 1) div K = 1"
      using assms by (simp add: div_add_self2)
    with run show ?thesis by simp
  next
    case False
    let ?xs1 = "take K xs" and ?xs2 = "drop K xs"
    let ?ls1 = "take K ls" and ?ls2 = "drop K ls"
    have split: "xs = ?xs1 @ ?xs2"
      by simp
    have len1: "length ?xs1 = K"
      using False by simp
    have ne1: "?xs1 \<noteq> []"
      using len1 assms by auto
    have fmt1: "map (format fmt_line) ?xs1 = map Inr ?ls1"
      using "1.prems"(3) by (metis take_map)
    have fit1: "sum_list (map (\<lambda>l. length l + 1) ?ls1) \<le> max_desc_length"
      using "1.prems"(4) [rule_format, of 0] by simp
    from create_embeds_loop_block [where format = format and fmt_line = fmt_line
        and clr = clr and n = n and embeds = embeds and em = em and al = al,
        OF assms "1.prems"(2) ne1 _ fmt1 fit1] len1
    obtain al1 where run1: "create_embeds_loop format fmt_line clr (Some (int K)) n i ?xs1
        (embeds, em, al) =
       Inr (embeds @ [em],
            (new_embed clr)\<lparr>description := concat (map (\<lambda>l. l @ ''\<newline>'') ?ls1)\<rparr>, al1)"
      by auto
    let ?em1 = "(new_embed clr)\<lparr>description := concat (map (\<lambda>l. l @ ''\<newline>'') ?ls1)\<rparr>"
    have shorter: "length ?xs2 < length xs"
      using assms "1.prems"(1) by simp
    have ne2: "?xs2 \<noteq> []"
      using False by simp
    have at2: "(i + length ?xs1) mod K = 0"
      using "1.prems"(2) len1 by simp
    have fmt2: "map (format fmt_line) ?xs2 = map Inr ?ls2"
      using "1.prems"(3) by (metis drop_map)
    have fit2: "\<forall>j. sum_list (map (\<lambda>l. length l + 1) (take K (drop (j * K) ?ls2))) \<le> max_desc_length"
    proof
      fix j
      have "drop (j * K) ?ls2 = drop (Suc j * K) ls"
        by (simp add: add.commute)
      then show "sum_list (map (\<lambda>l. length l + 1) (take K (drop (j * K) ?ls2))) \<le> max_desc_length"
        using "1.prems"(4) [rule_format, of "Suc j"] by simp
    qed
    have "\<exists>rest em' al'.
       create_embeds_loop format fmt_line clr (Some (int K)) n (i + length ?xs1) ?xs2
         (embeds @ [em], ?em1, al1) = Inr ((embeds @ [em]) @ ?em1 # rest, em', al')
       \<and> Suc (length rest) = (length ?xs2 + K - 1) div K"
      by (rule "1.IH" [rule_format, of ?xs2 "i + length ?xs1" ?ls2 "embeds @ [em]" ?em1 al1,
            OF shorter ne2 at2 fmt2 fit2 [rule_format]])
    then obtain rest' em' al' where run2:
      "create_embeds_loop format fmt_line clr (Some (int K)) n (i + length ?xs1) ?xs2
          (embeds @ [em], ?em1, al1) = Inr ((embeds @ [em]) @ ?em1 # rest', em', al')"
      and count2: "Suc (length rest') = (length ?xs2 + K - 1) div K"
      by blast
    have run: "create_embeds_loop format fmt_line clr (Some (int K)) n i xs (embeds, em, al)
        = Inr (embeds @ em # (?em1 # rest'), em', al')"
      using run1 run2 create_embeds_loop_append [of format fmt_line clr "Some (int K)" n i ?xs1 ?xs2
          "(embeds, em, al)"]
      by simp
    have eq2: "length ?xs2 + K - 1 = length xs - 1"
      using False by simp
    have eq1: "length xs + K - 1 = (length xs - 1) + K"
      using "1.prems"(1) by (cases xs) simp_all
    have "K \<noteq> 0"
      using assms by simp
    then have "((length xs - 1) + K) div K = (length xs - 1) div K + 1"
      by (rule div_add_self2)
    then have "(length xs + K - 1) div K = Suc ((length ?xs2 + K - 1) div K)"
      unfolding eq1 eq2 by simp
    with count2 have "Suc (length (?em1 # rest')) = (length xs + K - 1) div K"
      by simp
    with run show ?thesis by blast
  qed
qed

text \<open>The flag \<open>append_list\<close> is set by the last record and never reset.\<close>

lemma create_embeds_body_flag:
  assumes "create_embeds_body format fmt_line clr per_page n i arg (embeds, em, al)
    = Inr (embeds', em', al')"
  shows "al' = (al \<or> Suc i = n)"
proof (cases "format fmt_line arg")
  case (Inl e)
  with assms show ?thesis
    by (simp add: create_embeds_body_def)
next
  case (Inr line)
  show ?thesis
    using assms
    unfolding create_embeds_body_eq [where format = format and fmt_line = fmt_line, OF Inr]
    by (auto split: if_splits)
qed

lemma create_embeds_loop_flag:
  "xs \<noteq> [] \<Longrightarrow> i + length xs = n \<Longrightarrow>
     create_embeds_loop format fmt_line clr per_page n i xs (embeds, em, al) = Inr (embeds', em', al')
     \<Longrightarrow> al'"
proof (induction xs arbitrary: i embeds em al)
  case Nil
  then show ?case by simp
next
  case (Cons x xs)
  from Cons.prems(3) obtain e1 em1 al1 where
    body: "create_embeds_body format fmt_line clr per_page n i x (embeds, em, al) = Inr (e1, em1, al1)"
    and rest: "create_embeds_loop format fmt_line clr per_page n (Suc i) xs (e1, em1, al1)
        = Inr (embeds', em', al')"
    by (auto split: sum.splits)
  note al1 = create_embeds_body_flag [OF body]
  show ?case
  proof (cases xs)
    case Nil
    with Cons.prems(2) rest al1 show ?thesis by simp
  next
    case (Cons y ys)
    then have "xs \<noteq> []" by simp
    moreover have "Suc i + length xs = n"
      using Cons.prems(2) by simp
    ultimately show ?thesis
      using rest by (rule Cons.IH)
  qed
qed

lemma sum_list_take_drop_le:
  fixes f :: "'a \<Rightarrow> nat"
  shows "sum_list (map f (take n (drop m xs))) \<le> sum_list (map f xs)"
proof -
  have "sum_list (map f xs) = sum_list (map f (take m xs)) + sum_list (map f (drop m xs))"
    by (metis append_take_drop_id map_append sum_list_append)
  moreover have "sum_list (map f (drop m xs)) =
      sum_list (map f (take n (drop m xs))) + sum_list (map f (drop n (drop m xs)))"
    by (metis append_take_drop_id map_append sum_list_append)
  ultimately show ?thesis by linarith
qed

text \<open>
  C2 as stated fails: two records of 2048 characters with \<open>per_page = 2\<close>. Each line
  and its separator fit the budget, but both together do not, so the second record
  closes the embed of the first and the result has three embeds, not
  \<open>1 + ceil(2/2) = 2\<close>.
\<close>

theorem per_page_count_counterexample:
  "format_x ''{x}'' [(''x'', replicate 2048 CHR ''a'')] = Inr (replicate 2048 CHR ''a'')
   \<and> format_x ''{x}'' [(''x'', replicate 2048 CHR ''b'')] = Inr (replicate 2048 CHR ''b'')
   \<and> length (replicate 2048 CHR ''a'') + 1 \<le> max_desc_length
   \<and> length (replicate 2048 CHR ''b'') + 1 \<le> max_desc_length
   \<and> create_embeds format_x ''{x}''
        [[(''x'', replicate 2048 CHR ''a'')], [(''x'', replicate 2048 CHR ''b'')]] None (Some 2)
      = Inr (Some [new_embed None,
                   (new_embed None)\<lparr>description := replicate 2048 CHR ''a'' @ ''\<newline>''\<rparr>,
                   (new_embed None)\<lparr>description := replicate 2048 CHR ''b'' @ ''\<newline>''\<rparr>])
   \<and> length [new_embed None,
              (new_embed None)\<lparr>description := replicate 2048 CHR ''a'' @ ''\<newline>''\<rparr>,
              (new_embed None)\<lparr>description := replicate 2048 CHR ''b'' @ ''\<newline>''\<rparr>]
      \<noteq> 1 + (length [[(''x'', replicate 2048 CHR ''a'')], [(''x'', replicate 2048 CHR ''b'')]]
               + 2 - 1) div 2"
  by (simp add: create_embeds_def create_embeds_body_def format_x_def new_embed_def
        max_desc_length_def)

text \<open>
  C2 as the code has it. Let \<open>per_page\<close> be \<open>k \<ge> 1\<close>, let the records render to \<open>lines\<close>,
  and let the lines of each run of \<open>k\<close> consecutive records that starts at a multiple
  of \<open>k\<close> fit the budget together with their separators. Then for a non-empty
  argument list \<open>create_embeds\<close> returns a list whose first embed has an empty
  description and whose length is \<open>1 + ceil(n / k)\<close>, written \<open>1 + (n + k - 1) div k\<close>.
\<close>

theorem create_embeds_per_page_count:
  assumes "arguments \<noteq> []" and "0 < k"
    and "map (format fmt_line) arguments = map Inr lines"
    and "\<forall>j. sum_list (map (\<lambda>l. length l + 1) (take (nat k) (drop (j * nat k) lines)))
              \<le> max_desc_length"
  shows "\<exists>embeds. create_embeds format fmt_line arguments clr (Some k) = Inr (Some embeds)
    \<and> description (hd embeds) = []
    \<and> length embeds = 1 + (length arguments + nat k - 1) div nat k"
proof -
  let ?K = "nat k"
  have K: "0 < ?K" and k: "k = int ?K"
    using assms(2) by simp_all
  from create_embeds_loop_blocks [where format = format and fmt_line = fmt_line
      and clr = clr and n = "length arguments" and embeds = "[]" and em = "new_embed clr"
      and al = False and i = 0, OF K assms(1) _ assms(3) assms(4)]
  obtain rest em' al' where
    run: "create_embeds_loop format fmt_line clr (Some (int ?K)) (length arguments) 0 arguments
        ([], new_embed clr, False) = Inr ([] @ new_embed clr # rest, em', al')"
    and count: "Suc (length rest) = (length arguments + ?K - 1) div ?K"
    by auto
  have al': "al'"
    using create_embeds_loop_flag [OF assms(1) _ run] by simp
  have "create_embeds format fmt_line arguments clr (Some k)
      = Inr (Some ((new_embed clr # rest) @ [em']))"
    using assms(1) run al' k by (simp add: create_embeds_def)
  moreover have "description (hd ((new_embed clr # rest) @ [em'])) = []"
    by (simp add: new_embed_def)
  moreover have "length ((new_embed clr # rest) @ [em']) = 1 + (length arguments + ?K - 1) div ?K"
    using count by simp
  ultimately show ?thesis by blast
qed

theorem create_embeds_per_page_count_witness:
  "map (format_x ''{x}'')
     [[(''x'', ''a'')], [(''x'', ''b'')], [(''x'', ''c'')], [(''x'', ''d'')], [(''x'', ''e'')]]
     = map Inr [''a'', ''b'', ''c'', ''d'', ''e'']
   \<and> (\<exists>embeds. create_embeds format_x ''{x}''
          [[(''x'', ''a'')], [(''x'', ''b'')], [(''x'', ''c'')], [(''x'', ''d'')], [(''x'', ''e'')]]
          None (Some 2) = Inr (Some embeds)
        \<and> description (hd embeds) = [] \<and> length embeds = 4)"
proof -
  have ne: "[[(''x'', ''a'')], [(''x'', ''b'')], [(''x'', ''c'')], [(''x'', ''d'')], [(''x'', ''e'')]] \<noteq> []"
    by simp
  have pos: "(0::int) < 2"
    by simp
  have fmt: "map (format_x ''{x}'')
     [[(''x'', ''a'')], [(''x'', ''b'')], [(''x'', ''c'')], [(''x'', ''d'')], [(''x'', ''e'')]]
     = map Inr [''a'', ''b'', ''c'', ''d'', ''e'']"
    by (simp add: format_x_def)
  have fit: "\<forall>j. sum_list (map (\<lambda>l. length l + 1)
        (take (nat 2) (drop (j * nat 2) [''a'', ''b'', ''c'', ''d'', ''e'']))) \<le> max_desc_length"
  proof
    fix j
    have "sum_list (map (\<lambda>l. length l + 1)
        (take (nat 2) (drop (j * nat 2) [''a'', ''b'', ''c'', ''d'', ''e''])))
      \<le> sum_list (map (\<lambda>l. length l + 1) [''a'', ''b'', ''c'', ''d'', ''e''])"
      by (rule sum_list_take_drop_le)
    also have "\<dots> \<le> max_desc_length"
      by (simp add: max_desc_length_def)
    finally show "sum_list (map (\<lambda>l. length l + 1)
        (take (nat 2) (drop (j * nat 2) [''a'', ''b'', ''c'', ''d'', ''e'']))) \<le> max_desc_length" .
  qed
  from create_embeds_per_page_count [where format = format_x and fmt_line = "''{x}''"
      and clr = None, OF ne pos fmt fit]
  obtain embeds where run: "create_embeds format_x ''{x}''
          [[(''x'', ''a'')], [(''x'', ''b'')], [(''x'', ''c'')], [(''x'', ''d'')], [(''x'', ''e'')]]
          None (Some 2) = Inr (Some embeds)"
    and first: "description (hd embeds) = []"
    and count: "length embeds = 1 + (length
          [[(''x'', ''a'')], [(''x'', ''b'')], [(''x'', ''c'')], [(''x'', ''d'')], [(''x'', ''e'')]]
          + nat 2 - 1) div nat 2"
    by blast
  from count have "length embeds = 4"
    by simp
  with fmt run first show ?thesis by blast
qed

subsection \<open>PaginatorView: the controls follow the cursor\<close>

lemma four_children:
  assumes "map custom_id cs = [''first'', ''previous'', ''next'', ''last'']"
  obtains a b c d where "cs = [a, b, c, d]"
  using assms by (auto simp: map_eq_Cons_conv)

lemma set_disabled_four:
  "set_disabled 0 x [a, b, c, d] = [a\<lparr>disabled := x\<rparr>, b, c, d]"
  "set_disabled (Suc 0) x [a, b, c, d] = [a, b\<lparr>disabled := x\<rparr>, c, d]"
  "set_disabled 2 x [a, b, c, d] = [a, b, c\<lparr>disabled := x\<rparr>, d]"
  "set_disabled 3 x [a, b, c, d] = [a, b, c, d\<lparr>disabled := x\<rparr>]"
  by (simp_all add: set_disabled_def eval_nat_numeral)

lemma lock_view_ok:
  assumes "2 \<le> total_pages (view_pages v)" and "cursor_ok (view_pages v)"
    and "map custom_id (children v) = [''first'', ''previous'', ''next'', ''last'']"
  shows "view_ok (lock v)"
proof -
  from assms(3) obtain a b c d where cs: "children v = [a, b, c, d]"
    by (rule four_children)
  show ?thesis
    using assms cs
    by (auto simp: view_ok_def lock_def cursor_ok_def set_disabled_four)
qed

lemma lock_frame:
  "view_pages (lock v) = view_pages v" "message (lock v) = message v"
  "ctx_author_id (lock v) = ctx_author_id v"
  by (simp_all add: lock_def)

lemma update_embed_frame:
  assumes "update_embed page v = Inr v'"
  shows "view_pages v' = view_pages v" and "children v' = children v"
    and "message v' = message v" and "ctx_author_id v' = ctx_author_id v"
  using assms by (auto simp: update_embed_def Let_def split: option.splits)

lemma update_embed_Some: "\<exists>v'. update_embed (Some pg) v = Inr v'"
  by (simp add: update_embed_def Let_def)

lemma update_embed_None: "update_embed None v = Inl AttributeError"
  by (simp add: update_embed_def)

text \<open>With the cursor in range a navigation property returns a page or \<open>None\<close>.\<close>

lemma navigate_result:
  assumes "cursor_ok p"
  shows "navigate b p = (Inr None, p)
    \<or> (\<exists>pg. navigate b p = (Inr (Some pg), snd (navigate b p)))"
proof (cases b)
  case First
  have "cursor_ok (p\<lparr>cur_page := 1\<rparr>)"
    using assms by (simp add: cursor_ok_def total_pages_def)
  from current_page_ok [OF this] First show ?thesis
    by (simp add: first_page_def Let_def)
next
  case Previous
  show ?thesis
  proof (cases "cur_page p = 1")
    case True
    with Previous show ?thesis by (simp add: previous_page_def)
  next
    case False
    then have "cursor_ok (p\<lparr>cur_page := cur_page p - 1\<rparr>)"
      using assms by (simp add: cursor_ok_def total_pages_def)
    from current_page_ok [OF this] Previous False show ?thesis
      by (simp add: previous_page_def Let_def)
  qed
next
  case Next
  show ?thesis
  proof (cases "cur_page p = total_pages p")
    case True
    with Next show ?thesis by (simp add: next_page_def)
  next
    case False
    then have "cursor_ok (p\<lparr>cur_page := cur_page p + 1\<rparr>)"
      using assms by (simp add: cursor_ok_def total_pages_def)
    from current_page_ok [OF this] Next False show ?thesis
      by (simp add: next_page_def Let_def)
  qed
next
  case Last
  have "cursor_ok (p\<lparr>cur_page := total_pages p\<rparr>)"
    using assms by (simp add: cursor_ok_def total_pages_def)
  from current_page_ok [OF this] Last show ?thesis
    by (simp add: last_page_def Let_def)
qed

lemma navigate_total: "total_pages (snd (navigate b p)) = total_pages p"
  by (simp add: total_pages_def navigate_pages)

lemma view_ok_shape: "view_ok v \<Longrightarrow> view_shape v"
  by (simp add: view_ok_def view_shape_def)

text \<open>
  A button callback either raises and leaves the view as it was, or it gets as far as
  \<open>_lock\<close>, and then the buttons are as the new position of the cursor asks.
\<close>

lemma button_callback_cases:
  assumes "view_shape v"
  shows "(fst (snd (button_callback (navigate b) tr v)) = v
          \<and> fst (button_callback (navigate b) tr v) \<noteq> Inr ())
    \<or> view_ok (fst (snd (button_callback (navigate b) tr v)))"
proof (cases "tr Defer")
  case (Some e)
  then show ?thesis by (simp add: button_callback_def)
next
  case None
  have ok: "cursor_ok (view_pages v)"
    using assms by (simp add: view_shape_def)
  from navigate_result [OF ok, of b] show ?thesis
  proof
    assume "navigate b (view_pages v) = (Inr None, view_pages v)"
    with None show ?thesis
      by (simp add: button_callback_def update_embed_None)
  next
    assume "\<exists>pg. navigate b (view_pages v) = (Inr (Some pg), snd (navigate b (view_pages v)))"
    then obtain pg p' where nav: "navigate b (view_pages v) = (Inr (Some pg), p')"
      and p': "p' = snd (navigate b (view_pages v))"
      by blast
    let ?v1 = "v\<lparr>view_pages := p'\<rparr>"
    obtain v2 where v2: "update_embed (Some pg) ?v1 = Inr v2"
      using update_embed_Some by blast
    note frame = update_embed_frame [OF v2]
    have "view_ok (lock v2)"
    proof (rule lock_view_ok)
      show "2 \<le> total_pages (view_pages v2)"
        using assms frame by (simp add: view_shape_def navigate_total p')
      show "cursor_ok (view_pages v2)"
        using ok frame by (simp add: navigate_cursor_ok p')
      show "map custom_id (children v2) = [''first'', ''previous'', ''next'', ''last'']"
        using assms frame by (simp add: view_shape_def)
    qed
    moreover have "fst (snd (button_callback (navigate b) tr v)) = lock v2"
      using None v2 by (simp add: button_callback_def nav Let_def split: option.splits)
    ultimately show ?thesis by simp
  qed
qed

lemma button_callback_view_ok:
  assumes "view_ok v"
  shows "view_ok (fst (snd (button_callback (navigate b) tr v)))"
  using button_callback_cases [OF view_ok_shape [OF assms], of b tr] assms by auto

lemma button_callback_shape:
  assumes "view_shape v"
  shows "view_shape (fst (snd (button_callback (navigate b) tr v)))"
  using button_callback_cases [OF assms, of b tr] assms by (auto dest: view_ok_shape)

lemma callback_eq: "callback b = button_callback (navigate b)"
  by (cases b)
     (simp_all add: button_first_def button_previous_def button_next_def button_last_def)

lemma callback_completed:
  assumes "view_shape v" and "fst (callback b tr v) = Inr ()"
  shows "view_ok (fst (snd (callback b tr v)))"
  using button_callback_cases [OF assms(1), of b tr] assms(2) by (auto simp: callback_eq)

lemma dispatch_state:
  "fst (snd (dispatch tr user b v)) = v
   \<or> fst (snd (dispatch tr user b v)) = fst (snd (button_callback (navigate b) tr v))"
proof (cases "user \<noteq> ctx_author_id v")
  case True
  then show ?thesis
    by (simp add: dispatch_def interaction_check_def split: option.splits)
next
  case False
  then show ?thesis
    by (simp add: dispatch_def interaction_check_def callback_eq split: prod.splits)
qed

lemma dispatch_view_ok:
  assumes "view_ok v"
  shows "view_ok (fst (snd (dispatch tr user b v)))"
  using dispatch_state [of tr user b v] button_callback_view_ok [OF assms, of b tr] assms
  by auto

lemma dispatch_shape:
  assumes "view_shape v"
  shows "view_shape (fst (snd (dispatch tr user b v)))"
  using dispatch_state [of tr user b v] button_callback_shape [OF assms, of b tr] assms
  by auto

lemma run_view_ok: "view_ok v \<Longrightarrow> view_ok (run_view evs v)"
proof (induction evs arbitrary: v)
  case Nil
  then show ?case by simp
next
  case (Cons ev evs)
  obtain tr user b where ev: "ev = (tr, user, b)"
    by (cases ev)
  from Cons.prems have "view_ok (fst (snd (dispatch tr user b v)))"
    by (rule dispatch_view_ok)
  then have "view_ok (run_view evs (fst (snd (dispatch tr user b v))))"
    by (rule Cons.IH)
  with ev show ?case by simp
qed

lemma run_view_shape: "view_shape v \<Longrightarrow> view_shape (run_view evs v)"
proof (induction evs arbitrary: v)
  case Nil
  then show ?case by simp
next
  case (Cons ev evs)
  obtain tr user b where ev: "ev = (tr, user, b)"
    by (cases ev)
  from Cons.prems have "view_shape (fst (snd (dispatch tr user b v)))"
    by (rule dispatch_shape)
  then have "view_shape (run_view evs (fst (snd (dispatch tr user b v))))"
    by (rule Cons.IH)
  with ev show ?case by simp
qed

text \<open>The constructor: it looks at the cursor only to see whether it is 1.\<close>

lemma PaginatorView_init_children:
  "map custom_id (children (PaginatorView_init author p em spc))
     = [''first'', ''previous'', ''next'', ''last'']"
  "map disabled (children (PaginatorView_init author p em spc))
     = (if cur_page p = 1 then [True, True, False, False] else [False, False, False, False])"
  by (simp_all add: PaginatorView_init_def buttons_def set_disabled_four)

lemma PaginatorView_init_shape:
  assumes "2 \<le> total_pages p" and "cursor_ok p"
  shows "view_shape ((PaginatorView_init author p em spc)\<lparr>message := msg\<rparr>)"
  using assms PaginatorView_init_children(1) [of author p em spc]
  by (simp add: view_shape_def) (simp add: PaginatorView_init_def)

lemma PaginatorView_init_ok:
  assumes "2 \<le> total_pages p" and "cursor_ok p" and "cur_page p \<noteq> total_pages p"
  shows "view_ok ((PaginatorView_init author p em spc)\<lparr>message := msg\<rparr>)"
  using assms PaginatorView_init_children [of author p em spc]
  by (simp add: view_ok_def) (simp add: PaginatorView_init_def)

text \<open>What \<open>start\<close> creates is the constructor's view on a fresh page set, with a message.\<close>

lemma start_view:
  assumes "start tr m rp = Inr (Some v, out)"
  obtains ps em where "1 < total_pages ps" and "ps = Pages_init (pages ps)"
    and "v = (PaginatorView_init (rp_author_id rp) ps em (rp_show_page_count rp))\<lparr>message := Some m\<rparr>"
  using assms
  by (auto simp: start_def Let_def Pages_init_def split: sum.splits if_splits option.splits)

lemma start_rp5:
  "start (\<lambda>_. None) 99 rp5
     = Inr (Some view5, [Send_message (embed view5) (Some (children view5))])"
  by (simp add: start_def rp5_def view5_def get_chunks_def chunks.simps Pages_init_def
        total_pages_def paginator_embed_def current_page_def getitem_def str_int_def
        str_nat.simps PaginatorView_init_def buttons_def set_disabled_four)

lemma view5_init:
  "view5 = (PaginatorView_init 7 (Pages_init [''a'', ''b'', ''c'', ''d'', ''e''])
              (embed view5) True)\<lparr>message := Some 99\<rparr>"
  by (simp add: view5_def PaginatorView_init_def Pages_init_def buttons_def set_disabled_four)

text \<open>
  C5 as stated fails. \<open>last_page\<close> on a fresh page set of two pages moves the cursor to
  2, the total. The view constructed on it has all four buttons enabled, next and last
  included, and pressing next (which raises at the boundary) leaves them so.
\<close>

theorem controls_at_construction_counterexample:
  "snd (navigate Last (Pages_init [''a'', ''b''])) = \<lparr>pages = [''a'', ''b''], cur_page = 2\<rparr>
   \<and> total_pages \<lparr>pages = [''a'', ''b''], cur_page = 2\<rparr> = 2
   \<and> map disabled (children (PaginatorView_init 7 \<lparr>pages = [''a'', ''b''], cur_page = 2\<rparr>
        \<lparr>title = None, description = ''b'', color = Some dark_embed,
          footer = Some ''Page 2 of 2''\<rparr> True))
       = [False, False, False, False]
   \<and> cur_page (view_pages (run_view [(\<lambda>_. None, 7, Next)]
        (PaginatorView_init 7 \<lparr>pages = [''a'', ''b''], cur_page = 2\<rparr>
          \<lparr>title = None, description = ''b'', color = Some dark_embed,
            footer = Some ''Page 2 of 2''\<rparr> True))) = 2
   \<and> map disabled (children (run_view [(\<lambda>_. None, 7, Next)]
        (PaginatorView_init 7 \<lparr>pages = [''a'', ''b''], cur_page = 2\<rparr>
          \<lparr>title = None, description = ''b'', color = Some dark_embed,
            footer = Some ''Page 2 of 2''\<rparr> True)))
       = [False, False, False, False]"
  by (simp add: Pages_init_def last_page_def total_pages_def PaginatorView_init_def buttons_def
        dispatch_def interaction_check_def button_next_def button_callback_def next_page_def
        update_embed_def current_page_def getitem_def Let_def)

text \<open>
  C5 as the code has it, for a view constructed on a page set \<open>p\<close> of at least two pages
  with the cursor in range, whatever message is assigned to it afterwards. \<open>view_ok\<close>
  says: first and previous are disabled and next and last enabled at cursor 1, next and
  last are disabled and first and previous enabled at cursor \<open>total\<close>, all four are
  enabled in between. If the cursor of \<open>p\<close> is not on the last page (\<open>start\<close> constructs
  at cursor 1), \<open>view_ok\<close> holds after construction (\<open>evs = []\<close>) and after every sequence
  \<open>evs\<close> of button presses, by any users and whatever the calls to the service answer.
  And wherever the cursor of \<open>p\<close> is, \<open>view_ok\<close> holds from the first button callback on
  that returns normally.
\<close>

theorem controls_follow_cursor:
  assumes "2 \<le> total_pages p" and "cursor_ok p"
  shows "(cur_page p \<noteq> total_pages p \<longrightarrow>
            view_ok (run_view evs ((PaginatorView_init author p em spc)\<lparr>message := msg\<rparr>)))
    \<and> (fst (callback b tr
               (run_view evs ((PaginatorView_init author p em spc)\<lparr>message := msg\<rparr>))) = Inr ()
         \<longrightarrow> view_ok (run_view evs' (fst (snd (callback b tr
               (run_view evs ((PaginatorView_init author p em spc)\<lparr>message := msg\<rparr>)))))))"
proof -
  let ?v0 = "(PaginatorView_init author p em spc)\<lparr>message := msg\<rparr>"
  have first: "cur_page p \<noteq> total_pages p \<longrightarrow> view_ok (run_view evs ?v0)"
    using assms by (auto intro: run_view_ok PaginatorView_init_ok)
  have "view_shape (run_view evs ?v0)"
    using assms by (intro run_view_shape PaginatorView_init_shape)
  then have "fst (callback b tr (run_view evs ?v0)) = Inr () \<longrightarrow>
      view_ok (run_view evs' (fst (snd (callback b tr (run_view evs ?v0)))))"
    by (auto intro: run_view_ok callback_completed)
  with first show ?thesis by blast
qed

theorem controls_follow_cursor_witness:
  "map_sum id fst (start (\<lambda>_. None) 99 rp5) = Inr (Some view5)
   \<and> view5 = (PaginatorView_init 7 (Pages_init [''a'', ''b'', ''c'', ''d'', ''e''])
                (embed view5) True)\<lparr>message := Some 99\<rparr>
   \<and> total_pages (Pages_init [''a'', ''b'', ''c'', ''d'', ''e'']) = 5
   \<and> cur_page (Pages_init [''a'', ''b'', ''c'', ''d'', ''e'']) = 1
   \<and> view_ok view5
   \<and> map disabled (children view5) = [True, True, False, False]
   \<and> cur_page (view_pages (run_view [(\<lambda>_. None, 7, Next), (\<lambda>_. None, 7, Next)] view5)) = 3
   \<and> map disabled (children (run_view [(\<lambda>_. None, 7, Next), (\<lambda>_. None, 7, Next)] view5))
       = [False, False, False, False]
   \<and> cur_page (view_pages (run_view [(\<lambda>_. None, 7, Last)] view5)) = 5
   \<and> map disabled (children (run_view [(\<lambda>_. None, 7, Last)] view5))
       = [False, False, True, True]
   \<and> fst (callback First (\<lambda>_. None)
        (PaginatorView_init 7 \<lparr>pages = [''a'', ''b''], cur_page = 2\<rparr> (embed view5) True))
       = Inr ()
   \<and> cur_page (view_pages (fst (snd (callback First (\<lambda>_. None)
        (PaginatorView_init 7 \<lparr>pages = [''a'', ''b''], cur_page = 2\<rparr> (embed view5) True)))))
       = 1
   \<and> map disabled (children (fst (snd (callback First (\<lambda>_. None)
        (PaginatorView_init 7 \<lparr>pages = [''a'', ''b''], cur_page = 2\<rparr> (embed view5) True)))))
       = [True, True, False, False]"
proof -
  let ?p5 = "Pages_init [''a'', ''b'', ''c'', ''d'', ''e'']"
  let ?p2 = "\<lparr>pages = [''a'', ''b''], cur_page = 2\<rparr>"
  let ?v2 = "PaginatorView_init 7 ?p2 (embed view5) True"
  have st: "map_sum id fst (start (\<lambda>_. None) 99 rp5) = Inr (Some view5)"
    by (simp add: start_rp5)
  have tot5: "total_pages ?p5 = 5" and cur5: "cur_page ?p5 = 1"
    by (simp_all add: Pages_init_def total_pages_def)
  have two5: "2 \<le> total_pages ?p5" and ok5: "cursor_ok ?p5"
    and not_last5: "cur_page ?p5 \<noteq> total_pages ?p5"
    by (simp_all add: Pages_init_def total_pages_def cursor_ok_def)
  note at = controls_follow_cursor [OF two5 ok5, where author = 7 and em = "embed view5"
      and spc = True and msg = "Some 99", THEN conjunct1, rule_format, OF not_last5,
      folded view5_init]
  have run2: "view_pages (run_view [(\<lambda>_. None, 7, Next), (\<lambda>_. None, 7, Next)] view5)
      = \<lparr>pages = [''a'', ''b'', ''c'', ''d'', ''e''], cur_page = 3\<rparr>"
    by (simp add: view5_def dispatch_def interaction_check_def button_next_def
          button_callback_def next_page_def total_pages_def current_page_def getitem_def
          update_embed_def lock_def Let_def)
  have run1: "view_pages (run_view [(\<lambda>_. None, 7, Last)] view5)
      = \<lparr>pages = [''a'', ''b'', ''c'', ''d'', ''e''], cur_page = 5\<rparr>"
    by (simp add: view5_def dispatch_def interaction_check_def button_last_def
          button_callback_def last_page_def total_pages_def current_page_def getitem_def
          update_embed_def lock_def Let_def)
  have ok1: "view_ok view5"
    using at [of "[]"] by simp
  have at1: "map disabled (children view5) = [True, True, False, False]"
    using ok1 by (simp add: view_ok_def) (simp add: view5_def)
  have at3: "map disabled (children (run_view [(\<lambda>_. None, 7, Next), (\<lambda>_. None, 7, Next)] view5))
      = [False, False, False, False]"
    using at [of "[(\<lambda>_. None, 7, Next), (\<lambda>_. None, 7, Next)]"]
    unfolding view_ok_def run2 by (simp add: total_pages_def)
  have at5: "map disabled (children (run_view [(\<lambda>_. None, 7, Last)] view5))
      = [False, False, True, True]"
    using at [of "[(\<lambda>_. None, 7, Last)]"]
    unfolding view_ok_def run1 by (simp add: total_pages_def)
  have two2: "2 \<le> total_pages ?p2" and ok2: "cursor_ok ?p2"
    by (simp_all add: total_pages_def cursor_ok_def)
  have v2: "?v2\<lparr>message := None\<rparr> = ?v2"
    by (simp add: PaginatorView_init_def)
  have fin: "fst (callback First (\<lambda>_. None) ?v2) = Inr ()"
    and pages2: "view_pages (fst (snd (callback First (\<lambda>_. None) ?v2)))
      = \<lparr>pages = [''a'', ''b''], cur_page = 1\<rparr>"
    by (simp_all add: PaginatorView_init_def button_first_def button_callback_def
          first_page_def current_page_def getitem_def update_embed_def lock_def Let_def)
  have "view_ok (fst (snd (callback First (\<lambda>_. None) ?v2)))"
    using controls_follow_cursor [OF two2 ok2, where author = 7 and em = "embed view5"
        and spc = True and msg = None and evs = "[]" and evs' = "[]" and b = First
        and tr = "\<lambda>_. None", THEN conjunct2]
      fin
    unfolding v2 by simp
  then have first2: "map disabled (children (fst (snd (callback First (\<lambda>_. None) ?v2))))
      = [True, True, False, False]"
    unfolding view_ok_def pages2 by simp
  from st view5_init tot5 cur5 ok1 at1 at3 at5 fin first2 show ?thesis
    unfolding run1 run2 pages2 by simp
qed

subsection \<open>PaginatorView: other users, timeout and transport errors\<close>

text \<open>
  C6. A button press by a user who is not the author of the command is rejected:
  \<open>interaction_check\<close> sends that user the ephemeral refusal and returns \<open>False\<close> (or
  raises what the sending raised), so no callback runs. The view is as it was (cursor,
  embed and buttons), and the only call made is the message to that user: the message
  of the session is not edited.
\<close>

theorem other_user_rejected:
  assumes "user \<noteq> ctx_author_id v"
  shows "interaction_check tr user v =
      (case tr (Send_ephemeral user not_yours) of
         None \<Rightarrow> (Inr False, v, [Send_ephemeral user not_yours])
       | Some e \<Rightarrow> (Inl e, v, []))
    \<and> dispatch tr user b v =
      (case tr (Send_ephemeral user not_yours) of
         None \<Rightarrow> (Inr (), v, [Send_ephemeral user not_yours])
       | Some e \<Rightarrow> (Inl e, v, []))
    \<and> run_view [(tr, user, b)] v = v"
  using assms by (simp add: dispatch_def interaction_check_def split: option.splits)

theorem other_user_rejected_witness:
  "(8::nat) \<noteq> ctx_author_id view5
   \<and> interaction_check (\<lambda>_. None) 8 view5 = (Inr False, view5, [Send_ephemeral 8 not_yours])
   \<and> dispatch (\<lambda>_. None) 8 Next view5 = (Inr (), view5, [Send_ephemeral 8 not_yours])
   \<and> dispatch (\<lambda>_. Some HTTPException) 8 Next view5 = (Inl HTTPException, view5, [])
   \<and> cur_page (view_pages (run_view [(\<lambda>_. None, 8, Next)] view5)) = 1"
proof -
  have other: "(8::nat) \<noteq> ctx_author_id view5"
    by (simp add: view5_def)
  have cur: "cur_page (view_pages view5) = 1"
    by (simp add: view5_def)
  show ?thesis
    using other cur
      other_user_rejected [OF other, of "\<lambda>_. None" Next]
      other_user_rejected [OF other, of "\<lambda>_. Some HTTPException" Next]
    by simp
qed

lemma lock_children_ids:
  assumes "map custom_id (children v) = [''first'', ''previous'', ''next'', ''last'']"
  shows "map custom_id (children (lock v)) = [''first'', ''previous'', ''next'', ''last'']"
proof -
  from assms obtain a b c d where "children v = [a, b, c, d]"
    by (rule four_children)
  with assms show ?thesis
    by (simp add: lock_def set_disabled_four)
qed

lemma button_callback_ids:
  assumes "map custom_id (children v) = [''first'', ''previous'', ''next'', ''last'']"
  shows "map custom_id (children (fst (snd (button_callback property tr v))))
    = [''first'', ''previous'', ''next'', ''last'']"
proof (cases "tr Defer")
  case (Some e)
  with assms show ?thesis by (simp add: button_callback_def)
next
  case None
  obtain r p' where pr: "property (view_pages v) = (r, p')"
    by (cases "property (view_pages v)")
  show ?thesis
  proof (cases r)
    case (Inl e)
    with None pr assms show ?thesis by (simp add: button_callback_def)
  next
    case (Inr page)
    show ?thesis
    proof (cases "update_embed page (v\<lparr>view_pages := p'\<rparr>)")
      case (Inl e)
      with None pr \<open>r = Inr page\<close> assms show ?thesis by (simp add: button_callback_def)
    next
      case (Inr v2)
      have "map custom_id (children v2) = [''first'', ''previous'', ''next'', ''last'']"
        using update_embed_frame(2) [OF Inr] assms by simp
      then have "map custom_id (children (lock v2)) = [''first'', ''previous'', ''next'', ''last'']"
        by (rule lock_children_ids)
      with None pr \<open>r = Inr page\<close> Inr show ?thesis
        by (simp add: button_callback_def Let_def split: option.splits)
    qed
  qed
qed

lemma button_callback_message:
  "message (fst (snd (button_callback property tr v))) = message v"
  by (auto simp: button_callback_def Let_def lock_frame
        split: option.splits prod.splits sum.splits dest: update_embed_frame(3))

lemma run_view_message_ids:
  "map custom_id (children v) = [''first'', ''previous'', ''next'', ''last''] \<Longrightarrow>
     message (run_view evs v) = message v
     \<and> map custom_id (children (run_view evs v)) = [''first'', ''previous'', ''next'', ''last'']"
proof (induction evs arbitrary: v)
  case Nil
  then show ?case by simp
next
  case (Cons ev evs)
  obtain tr user b where ev: "ev = (tr, user, b)"
    by (cases ev)
  let ?v1 = "fst (snd (dispatch tr user b v))"
  have "message ?v1 = message v
      \<and> map custom_id (children ?v1) = [''first'', ''previous'', ''next'', ''last'']"
    using dispatch_state [of tr user b v] Cons.prems
      button_callback_message [of "navigate b" tr v]
      button_callback_ids [OF Cons.prems, of "navigate b" tr]
    by auto
  with Cons.IH [of ?v1] ev show ?case by simp
qed

text \<open>
  C7. Let \<open>v\<close> be a view at any moment after its construction, with the message \<open>msg\<close>
  assigned to it (\<open>start\<close> assigns the message that \<open>ctx.send\<close> returned), and let \<open>v'\<close>
  be \<open>v\<close> with every button grey and disabled. \<open>on_timeout\<close> leaves the view \<open>v'\<close>, whose
  four buttons are all disabled and grey, and then edits the message to show them: when
  the edit goes through, \<open>on_timeout\<close> returns normally and the edit is made; when the
  edit raises \<open>HTTPException\<close>, \<open>on_timeout\<close> returns normally all the same; any other
  exception of the edit is raised, and so is \<open>AttributeError\<close> when no message was ever
  assigned. A button callback catches nothing: when deferring raises \<open>HTTPException\<close>,
  and when the edit of the message does after a navigation that returned a page, the
  callback raises \<open>HTTPException\<close>; when every call goes through it returns normally.
\<close>

theorem timeout_disables_and_swallows:
  assumes "v = run_view evs ((PaginatorView_init author p em spc)\<lparr>message := msg\<rparr>)"
    and "v' = v\<lparr>children := map (\<lambda>child. child\<lparr>style := grey, disabled := True\<rparr>) (children v)\<rparr>"
  shows "map custom_id (children v') = [''first'', ''previous'', ''next'', ''last'']
    \<and> map disabled (children v') = [True, True, True, True]
    \<and> map style (children v') = [grey, grey, grey, grey]
    \<and> on_timeout tr v =
        (case msg of
           None \<Rightarrow> (Inl AttributeError, v', [])
         | Some m \<Rightarrow>
             (case tr (Edit_view (children v')) of
                None \<Rightarrow> (Inr (), v', [Edit_view (children v')])
              | Some e \<Rightarrow> (if e = HTTPException then Inr () else Inl e, v', [])))
    \<and> (tr Defer = Some HTTPException \<longrightarrow> fst (callback b tr v) = Inl HTTPException)
    \<and> (tr Defer = None \<and> fst (navigate b (view_pages v)) = Inr (Some pg)
         \<and> (\<forall>em' cs. tr (Edit_message em' cs) = Some HTTPException) \<longrightarrow>
          fst (callback b tr v) = Inl HTTPException)
    \<and> (tr Defer = None \<and> fst (navigate b (view_pages v)) = Inr (Some pg)
         \<and> (\<forall>em' cs. tr (Edit_message em' cs) = None) \<longrightarrow>
          fst (callback b tr v) = Inr ())"
proof -
  have init: "map custom_id (children ((PaginatorView_init author p em spc)\<lparr>message := msg\<rparr>))
      = [''first'', ''previous'', ''next'', ''last'']"
    using PaginatorView_init_children(1) [of author p em spc] by simp
  from run_view_message_ids [OF init, of evs]
  have msg: "message v = msg"
    and ids: "map custom_id (children v) = [''first'', ''previous'', ''next'', ''last'']"
    unfolding assms(1) by simp_all
  from ids obtain a b' c d where cs: "children v = [a, b', c, d]"
    by (rule four_children)
  have ids': "map custom_id (children v') = [''first'', ''previous'', ''next'', ''last'']"
    and dis: "map disabled (children v') = [True, True, True, True]"
    and sty: "map style (children v') = [grey, grey, grey, grey]"
    using ids unfolding assms(2) cs by simp_all
  have timeout: "on_timeout tr v =
        (case msg of
           None \<Rightarrow> (Inl AttributeError, v', [])
         | Some m \<Rightarrow>
             (case tr (Edit_view (children v')) of
                None \<Rightarrow> (Inr (), v', [Edit_view (children v')])
              | Some e \<Rightarrow> (if e = HTTPException then Inr () else Inl e, v', [])))"
    using msg unfolding assms(2)
    by (simp add: on_timeout_def Let_def split: option.splits)
  have dfr: "tr Defer = Some HTTPException \<longrightarrow> fst (callback b tr v) = Inl HTTPException"
    by (simp add: callback_eq button_callback_def)
  have edit: "tr Defer = None \<and> fst (navigate b (view_pages v)) = Inr (Some pg)
         \<and> (\<forall>em' cs. tr (Edit_message em' cs) = x) \<longrightarrow>
          fst (callback b tr v) = (case x of None \<Rightarrow> Inr () | Some e \<Rightarrow> Inl e)" for x
  proof (intro impI, elim conjE)
    assume d: "tr Defer = None" and e: "\<forall>em' cs. tr (Edit_message em' cs) = x"
      and moved: "fst (navigate b (view_pages v)) = Inr (Some pg)"
    obtain p' where nav: "navigate b (view_pages v) = (Inr (Some pg), p')"
      using moved by (cases "navigate b (view_pages v)") simp
    obtain v2 where v2: "update_embed (Some pg) (v\<lparr>view_pages := p'\<rparr>) = Inr v2"
      using update_embed_Some by blast
    show "fst (callback b tr v) = (case x of None \<Rightarrow> Inr () | Some e \<Rightarrow> Inl e)"
      using d e v2 by (simp add: callback_eq button_callback_def nav Let_def split: option.splits)
  qed
  from ids' dis sty timeout dfr edit [of "Some HTTPException"] edit [of None]
  show ?thesis by simp
qed

theorem timeout_disables_and_swallows_witness:
  "map_sum id fst (start (\<lambda>_. None) 99 rp5) = Inr (Some view5)
   \<and> view5 = run_view [] ((PaginatorView_init 7 (Pages_init [''a'', ''b'', ''c'', ''d'', ''e''])
                (embed view5) True)\<lparr>message := Some 99\<rparr>)
   \<and> map disabled (children (view5\<lparr>children :=
        map (\<lambda>child. child\<lparr>style := grey, disabled := True\<rparr>) (children view5)\<rparr>))
       = [True, True, True, True]
   \<and> map style (children (view5\<lparr>children :=
        map (\<lambda>child. child\<lparr>style := grey, disabled := True\<rparr>) (children view5)\<rparr>))
       = [grey, grey, grey, grey]
   \<and> on_timeout (\<lambda>_. None) view5
       = (Inr (),
          view5\<lparr>children := map (\<lambda>child. child\<lparr>style := grey, disabled := True\<rparr>) (children view5)\<rparr>,
          [Edit_view (map (\<lambda>child. child\<lparr>style := grey, disabled := True\<rparr>) (children view5))])
   \<and> on_timeout (\<lambda>_. Some HTTPException) view5
       = (Inr (),
          view5\<lparr>children := map (\<lambda>child. child\<lparr>style := grey, disabled := True\<rparr>) (children view5)\<rparr>,
          [])
   \<and> on_timeout (\<lambda>_. Some TypeError) view5
       = (Inl TypeError,
          view5\<lparr>children := map (\<lambda>child. child\<lparr>style := grey, disabled := True\<rparr>) (children view5)\<rparr>,
          [])
   \<and> fst (navigate Next (view_pages view5)) = Inr (Some \<lparr>index = 2, content = ''b''\<rparr>)
   \<and> fst (callback Next (\<lambda>_. Some HTTPException) view5) = Inl HTTPException
   \<and> fst (callback Next (\<lambda>eff. if eff = Defer then None else Some HTTPException) view5)
       = Inl HTTPException
   \<and> fst (callback Next (\<lambda>_. None) view5) = Inr ()"
proof -
  let ?v' = "view5\<lparr>children := map (\<lambda>child. child\<lparr>style := grey, disabled := True\<rparr>) (children view5)\<rparr>"
  have st: "map_sum id fst (start (\<lambda>_. None) 99 rp5) = Inr (Some view5)"
    by (simp add: start_rp5)
  have v: "view5 = run_view [] ((PaginatorView_init 7 (Pages_init [''a'', ''b'', ''c'', ''d'', ''e''])
                (embed view5) True)\<lparr>message := Some 99\<rparr>)"
    using view5_init by simp
  have nav: "fst (navigate Next (view_pages view5)) = Inr (Some \<lparr>index = 2, content = ''b''\<rparr>)"
    by (simp add: view5_def next_page_def total_pages_def current_page_def getitem_def)
  note t = timeout_disables_and_swallows [OF v refl, where b = Next
      and pg = "\<lparr>index = 2, content = ''b''\<rparr>"]
  from st v nav t [of "\<lambda>_. None"] t [of "\<lambda>_. Some HTTPException"] t [of "\<lambda>_. Some TypeError"]
    t [of "\<lambda>eff. if eff = Defer then None else Some HTTPException"]
  show ?thesis by simp
qed

end
